theory Spec2Isabelle
  imports Main "HOL-Library.Word"
begin

unbundle bit_operations_syntax

section \<open>Buffer (include/Buffer.h, src/Buffer.cpp)\<close>

text \<open>
  The class keeps a \<open>std::vector<char>\<close> and two cursors of type \<open>size_t\<close>. The vector
  is a list of bytes, its \<open>size()\<close> is the length of the list. \<open>size_t\<close> is the unsigned
  64-bit type of the platform the repository is written for (Linux with epoll): a
  cursor or a byte count is a natural number below \<open>2 ^ 64\<close>, and the sums and
  differences the class forms are taken modulo \<open>2 ^ 64\<close>. The members lose their
  trailing underscore, which the logic's lexical rules do not admit.
\<close>

type_synonym byte = "8 word"

definition SIZE_MAX :: nat where
  "SIZE_MAX = 2 ^ 64 - 1"

definition size_add :: "nat \<Rightarrow> nat \<Rightarrow> nat" where
  "size_add a b = (a + b) mod 2 ^ 64"

definition size_sub :: "nat \<Rightarrow> nat \<Rightarrow> nat" where
  "size_sub a b = (a + (2 ^ 64 - b mod 2 ^ 64)) mod 2 ^ 64"

record Buffer =
  buffer :: "byte list"
  readerIndex :: nat
  writerIndex :: nat

definition kCheapPrepend :: nat where
  "kCheapPrepend = 8"

definition kInitialSize :: nat where
  "kInitialSize = 1024"

text \<open>
  How a call of a member function ends: it returns, or it leaves by an exception, or
  the call has no defined behaviour in C++ (an access outside the array). The class
  catches nothing; the exceptions are those of the allocations of \<open>std::vector\<close> and
  \<open>std::string\<close>. With an exception comes the state in which it leaves the object.

  Whether an allocation succeeds is an input of the model: \<open>None\<close> when it does, the
  exception otherwise. Independently of that, a vector refuses to hold more than
  \<open>max_size()\<close> elements, which is \<open>PTRDIFF_MAX\<close> for \<open>std::vector<char>\<close> on the
  platform.
\<close>

datatype cpp_exception = length_error | bad_alloc

type_synonym allocation = "cpp_exception option"

datatype 'a outcome = Returned 'a | Thrown cpp_exception Buffer | Undefined

definition vector_max_size :: nat where
  "vector_max_size = 2 ^ 63 - 1"

text \<open>What obtaining storage for \<open>n\<close> elements throws, if anything.\<close>

definition vector_alloc :: "allocation \<Rightarrow> nat \<Rightarrow> cpp_exception option" where
  "vector_alloc a n = (if vector_max_size < n then Some length_error else a)"

text \<open>
  \<open>std::vector<char>::resize(n)\<close>: truncates, or fills up with zero bytes, for which it
  may need new storage. An exception leaves the vector as it was.
\<close>

definition vector_resize :: "allocation \<Rightarrow> nat \<Rightarrow> byte list \<Rightarrow> cpp_exception + byte list" where
  "vector_resize a n v =
     (if n \<le> length v then Inr (take n v)
      else case vector_alloc a n of
             Some e \<Rightarrow> Inl e
           | None \<Rightarrow> Inr (v @ replicate (n - length v) 0))"

text \<open>
  \<open>explicit Buffer(size_t initialSize = kInitialSize)\<close>. \<open>Buffer_init\<close> is the object
  that the member initialisers build: a zero-filled vector of
  \<open>kCheapPrepend + initialSize\<close> elements (a \<open>size_t\<close> sum) and the two cursors.
  \<open>Buffer_new\<close> is the call of the constructor, which throws when the vector cannot be
  built.
\<close>

definition Buffer_init :: "nat \<Rightarrow> Buffer" where
  "Buffer_init initialSize =
     \<lparr>buffer = replicate (size_add kCheapPrepend initialSize) 0,
      readerIndex = kCheapPrepend,
      writerIndex = kCheapPrepend\<rparr>"

definition Buffer_new :: "allocation \<Rightarrow> nat \<Rightarrow> cpp_exception + Buffer" where
  "Buffer_new a initialSize =
     (case vector_alloc a (size_add kCheapPrepend initialSize) of
        Some e \<Rightarrow> Inl e
      | None \<Rightarrow> Inr (Buffer_init initialSize))"

definition readable_bytes :: "Buffer \<Rightarrow> nat" where
  "readable_bytes b = size_sub (writerIndex b) (readerIndex b)"

definition writable_bytes :: "Buffer \<Rightarrow> nat" where
  "writable_bytes b = size_sub (length (buffer b)) (writerIndex b)"

definition prependable_bytes :: "Buffer \<Rightarrow> nat" where
  "prependable_bytes b = readerIndex b"

text \<open>
  \<open>peek()\<close> is the pointer \<open>begin() + readerIndex_\<close>; its value here is the part of the
  array that starts at the read cursor. A caller reads \<open>readable_bytes()\<close> bytes of it.
\<close>

definition peek :: "Buffer \<Rightarrow> byte list" where
  "peek b = drop (readerIndex b) (buffer b)"

definition retrieve_all :: "Buffer \<Rightarrow> Buffer" where
  "retrieve_all b = b\<lparr>readerIndex := kCheapPrepend, writerIndex := kCheapPrepend\<rparr>"

definition retrieve :: "Buffer \<Rightarrow> nat \<Rightarrow> Buffer" where
  "retrieve b len =
     (if len < readable_bytes b
      then b\<lparr>readerIndex := size_add (readerIndex b) len\<rparr>
      else retrieve_all b)"

text \<open>
  \<open>retrieve_as_string(len)\<close> builds a \<open>std::string\<close> from \<open>len\<close> bytes at \<open>peek()\<close>
  (after \<open>len = std::min(len, readable_bytes())\<close>) and then calls \<open>retrieve\<close>. The
  construction of the string may throw; it reads the bytes, which must lie in the
  vector.
\<close>

definition retrieve_as_string ::
  "allocation \<Rightarrow> Buffer \<Rightarrow> nat \<Rightarrow> (byte list \<times> Buffer) outcome" where
  "retrieve_as_string a b len =
     (let len' = min len (readable_bytes b)
      in case a of
           Some e \<Rightarrow> Thrown e b
         | None \<Rightarrow>
             (if readerIndex b + len' \<le> length (buffer b)
              then Returned (take len' (peek b), retrieve b len')
              else Undefined))"

definition retrieve_all_as_string :: "allocation \<Rightarrow> Buffer \<Rightarrow> (byte list \<times> Buffer) outcome" where
  "retrieve_all_as_string a b = retrieve_as_string a b (readable_bytes b)"

text \<open>
  \<open>std::copy(first, last, out)\<close> into the vector at offset \<open>pos\<close>: the bytes before
  \<open>pos\<close> and after the copied range stay. The callers below call it only when the
  range written lies in the vector; where the class would write outside, the call is
  \<open>Undefined\<close>.
\<close>

definition std_copy :: "byte list \<Rightarrow> nat \<Rightarrow> byte list \<Rightarrow> byte list" where
  "std_copy src pos dst = take pos dst @ src @ drop (pos + length src) dst"

text \<open>
  \<open>make_space(len)\<close>. Both sides of its test are \<open>size_t\<close> sums, and so is the argument
  of \<open>resize\<close>. The other branch copies the readable bytes down to \<open>kCheapPrepend\<close>,
  front to back; the ranges of this copy lie in the vector, with the destination not
  behind the source, when \<open>kCheapPrepend \<le> readerIndex_ \<le> writerIndex_ \<le> size()\<close>.
\<close>

definition make_space :: "allocation \<Rightarrow> Buffer \<Rightarrow> nat \<Rightarrow> Buffer outcome" where
  "make_space a b len =
     (if size_add (writable_bytes b) (prependable_bytes b) < size_add len kCheapPrepend
      then
        (case vector_resize a (size_add (writerIndex b) len) (buffer b) of
           Inl e \<Rightarrow> Thrown e b
         | Inr v \<Rightarrow> Returned (b\<lparr>buffer := v\<rparr>))
      else
        (if kCheapPrepend \<le> readerIndex b \<and> readerIndex b \<le> writerIndex b \<and>
            writerIndex b \<le> length (buffer b)
         then
           (let readable = readable_bytes b
            in Returned
                 (b\<lparr>buffer := std_copy (take readable (drop (readerIndex b) (buffer b)))
                                kCheapPrepend (buffer b),
                    readerIndex := kCheapPrepend,
                    writerIndex := size_add kCheapPrepend readable\<rparr>))
         else Undefined))"

definition ensure_writable_bytes :: "allocation \<Rightarrow> Buffer \<Rightarrow> nat \<Rightarrow> Buffer outcome" where
  "ensure_writable_bytes a b len =
     (if writable_bytes b < len then make_space a b len else Returned b)"

text \<open>
  \<open>append(data, len)\<close>: \<open>data\<close> is the \<open>len\<close> bytes at the pointer. The copy writes
  \<open>len\<close> bytes at the write cursor.
\<close>

definition append_buf :: "allocation \<Rightarrow> Buffer \<Rightarrow> byte list \<Rightarrow> Buffer outcome" where
  "append_buf a b data =
     (case ensure_writable_bytes a b (length data) of
        Returned b1 \<Rightarrow>
          (if writerIndex b1 + length data \<le> length (buffer b1)
           then Returned
                  (b1\<lparr>buffer := std_copy data (writerIndex b1) (buffer b1),
                      writerIndex := size_add (writerIndex b1) (length data)\<rparr>)
           else Undefined)
      | Thrown e b' \<Rightarrow> Thrown e b'
      | Undefined \<Rightarrow> Undefined)"

text \<open>
  \<open>read_fd\<close> calls \<open>readv\<close> on two areas: the writable part of the vector and a 64 KiB
  array on the stack (the second only when the writable part is shorter than 64 KiB).
  What the kernel answers is an input of the model: an error with its \<open>errno\<close>, or the
  bytes it delivered, in order. The kernel delivers no more than the areas hold, so a
  longer answer is cut there. The first area lies in the vector when the write cursor
  does. The result is the returned count, the value stored into \<open>saveErrno\<close> (if any)
  and the buffer.
\<close>

datatype readv_result = ReadvError int | ReadvBytes "byte list"

definition extrabuf_size :: nat where
  "extrabuf_size = 65536"

text \<open>The total length of the areas handed to \<open>readv\<close>.\<close>

definition iov_capacity :: "Buffer \<Rightarrow> nat" where
  "iov_capacity b =
     (let writable = writable_bytes b;
          iovcnt = (if writable < extrabuf_size then 2 else (1::nat))
      in if iovcnt = 2 then writable + extrabuf_size else writable)"

definition read_fd ::
  "allocation \<Rightarrow> Buffer \<Rightarrow> readv_result \<Rightarrow> (int \<times> int option \<times> Buffer) outcome" where
  "read_fd a b r =
     (let writable = writable_bytes b
      in if \<not> writerIndex b \<le> length (buffer b) then Undefined
         else
           (case r of
              ReadvError e \<Rightarrow> Returned (- 1, Some e, b)
            | ReadvBytes delivered \<Rightarrow>
                (let d = take (iov_capacity b) delivered;
                     n = length d
                 in if n \<le> writable
                    then Returned
                           (int n, None,
                            b\<lparr>buffer := std_copy d (writerIndex b) (buffer b),
                              writerIndex := size_add (writerIndex b) n\<rparr>)
                    else
                      (case append_buf a
                              (b\<lparr>buffer := std_copy (take writable d) (writerIndex b) (buffer b),
                                 writerIndex := length (buffer b)\<rparr>)
                              (drop writable d) of
                         Returned b' \<Rightarrow> Returned (int n, None, b')
                       | Thrown e b' \<Rightarrow> Thrown e b'
                       | Undefined \<Rightarrow> Undefined))))"

text \<open>
  The public operations as a datatype, and a run of them from a given buffer, each
  with the answer of the allocator during it. A caller that catches an exception goes
  on with the object as the exception left it; a run stops, with no buffer, at a call
  that has no defined behaviour.
\<close>

datatype buf_op =
    OpAppend "byte list"
  | OpRetrieve nat
  | OpRetrieveAll
  | OpRetrieveAsString nat
  | OpRetrieveAllAsString
  | OpEnsureWritable nat
  | OpReadFd readv_result

fun object_after :: "('a \<Rightarrow> Buffer) \<Rightarrow> 'a outcome \<Rightarrow> Buffer option" where
  "object_after f (Returned x) = Some (f x)"
| "object_after f (Thrown e b) = Some b"
| "object_after f Undefined = None"

fun apply_op :: "allocation \<Rightarrow> Buffer \<Rightarrow> buf_op \<Rightarrow> Buffer option" where
  "apply_op a b (OpAppend data) = object_after id (append_buf a b data)"
| "apply_op a b (OpRetrieve len) = Some (retrieve b len)"
| "apply_op a b OpRetrieveAll = Some (retrieve_all b)"
| "apply_op a b (OpRetrieveAsString len) = object_after snd (retrieve_as_string a b len)"
| "apply_op a b OpRetrieveAllAsString = object_after snd (retrieve_all_as_string a b)"
| "apply_op a b (OpEnsureWritable len) = object_after id (ensure_writable_bytes a b len)"
| "apply_op a b (OpReadFd r) = object_after (\<lambda>x. snd (snd x)) (read_fd a b r)"

fun run_ops :: "Buffer \<Rightarrow> (allocation \<times> buf_op) list \<Rightarrow> Buffer option" where
  "run_ops b [] = Some b"
| "run_ops b ((a, x) # xs) =
     (case apply_op a b x of None \<Rightarrow> None | Some b' \<Rightarrow> run_ops b' xs)"

text \<open>
  The arguments that the operations are given in a run. The data of an \<open>append\<close> is
  an array in memory, of at most \<open>PTRDIFF_MAX\<close> bytes. The argument of
  \<open>ensure_writable_bytes\<close> is a number of type \<open>size_t\<close>; \<open>no_wrap\<close> excludes the
  requests for which the sum \<open>writerIndex_ + len\<close> that \<open>make_space\<close> hands to \<open>resize\<close>
  wraps around: those between \<open>SIZE_MAX - writerIndex_\<close> and
  \<open>SIZE_MAX - kCheapPrepend\<close>. (A larger request makes the test of \<open>make_space\<close> wrap
  around instead, and only compacts.)
\<close>

fun no_wrap :: "Buffer \<Rightarrow> buf_op \<Rightarrow> bool" where
  "no_wrap b (OpAppend data) = (length data \<le> vector_max_size)"
| "no_wrap b (OpEnsureWritable len) =
     (len \<le> SIZE_MAX \<and>
      \<not> (SIZE_MAX - writerIndex b < len \<and> len \<le> SIZE_MAX - kCheapPrepend))"
| "no_wrap b _ = True"

fun all_no_wrap :: "Buffer \<Rightarrow> (allocation \<times> buf_op) list \<Rightarrow> bool" where
  "all_no_wrap b [] = True"
| "all_no_wrap b ((a, x) # xs) =
     (no_wrap b x \<and>
      (case apply_op a b x of None \<Rightarrow> False | Some b' \<Rightarrow> all_no_wrap b' xs))"

text \<open>
  The amount of writable space an operation asks \<open>ensure_writable_bytes\<close> for, measured
  against what compaction can free, in the state in which the operation asks: \<open>append\<close>
  asks for the length of its data, \<open>read_fd\<close> for the overflow into the stack array,
  after it has moved the write cursor to the end of the vector.
\<close>

fun within_compaction :: "Buffer \<Rightarrow> buf_op \<Rightarrow> bool" where
  "within_compaction b (OpAppend data) =
     (length data \<le> writable_bytes b + prependable_bytes b - kCheapPrepend)"
| "within_compaction b (OpEnsureWritable len) =
     (len \<le> writable_bytes b + prependable_bytes b - kCheapPrepend)"
| "within_compaction b (OpReadFd (ReadvBytes delivered)) =
     (let writable = writable_bytes b;
          d = take (iov_capacity b) delivered
      in length d \<le> writable \<or>
         length d - writable \<le> 0 + prependable_bytes b - kCheapPrepend)"
| "within_compaction b _ = True"

fun all_within_compaction :: "Buffer \<Rightarrow> (allocation \<times> buf_op) list \<Rightarrow> bool" where
  "all_within_compaction b [] = True"
| "all_within_compaction b ((a, x) # xs) =
     (within_compaction b x \<and>
      (case apply_op a b x of None \<Rightarrow> False | Some b' \<Rightarrow> all_within_compaction b' xs))"

text \<open>
  The invariant carried through the proofs: the layout that the comment at the head
  of Buffer.h draws, with the read cursor not before \<open>kCheapPrepend\<close> and the vector
  within its \<open>max_size()\<close>.
\<close>

definition Buffer_inv :: "Buffer \<Rightarrow> bool" where
  "Buffer_inv b \<longleftrightarrow>
     kCheapPrepend \<le> readerIndex b \<and>
     readerIndex b \<le> writerIndex b \<and>
     writerIndex b \<le> length (buffer b) \<and>
     length (buffer b) \<le> vector_max_size"

text \<open>
  The buffers that the two branches of \<open>make_space\<close> build from a well-formed
  buffer: with the readable bytes moved down, and with the vector filled up to \<open>n\<close>
  elements.
\<close>

definition compacted :: "Buffer \<Rightarrow> Buffer" where
  "compacted b =
     b\<lparr>buffer := std_copy (take (readable_bytes b) (drop (readerIndex b) (buffer b)))
                   kCheapPrepend (buffer b),
       readerIndex := kCheapPrepend,
       writerIndex := kCheapPrepend + readable_bytes b\<rparr>"

definition grown :: "nat \<Rightarrow> Buffer \<Rightarrow> Buffer" where
  "grown n b = b\<lparr>buffer := buffer b @ replicate (n - length (buffer b)) 0\<rparr>"

text \<open>The buffer after an \<open>append\<close> during which no allocation fails.\<close>

definition appended :: "Buffer \<Rightarrow> byte list \<Rightarrow> Buffer" where
  "appended b d =
     (case append_buf None b d of
        Returned b' \<Rightarrow> b'
      | Thrown e b' \<Rightarrow> b'
      | Undefined \<Rightarrow> b)"

section \<open>Channel (include/Channel.h, src/Channel.cpp)\<close>

text \<open>
  The event bits of \<open><sys/epoll.h>\<close> on Linux. The masks \<open>events_\<close> and \<open>revents_\<close>
  are \<open>int\<close>s used as bit sets: 32-bit words.
\<close>

definition EPOLLIN :: "32 word" where
  "EPOLLIN = 0x001"

definition EPOLLPRI :: "32 word" where
  "EPOLLPRI = 0x002"

definition EPOLLOUT :: "32 word" where
  "EPOLLOUT = 0x004"

definition EPOLLERR :: "32 word" where
  "EPOLLERR = 0x008"

definition EPOLLHUP :: "32 word" where
  "EPOLLHUP = 0x010"

definition KNoneEvent :: "32 word" where
  "KNoneEvent = 0"

definition KReadEvent :: "32 word" where
  "KReadEvent = EPOLLIN OR EPOLLPRI"

definition KWriteEvent :: "32 word" where
  "KWriteEvent = EPOLLOUT"

text \<open>Microseconds since the epoch (\<open>int64_t\<close> in Timestamp.h).\<close>

type_synonym Timestamp = int

text \<open>
  The data members of a Channel. The four \<open>std::function\<close> members are kept in a
  record of their own, \<open>ChannelCallbacks\<close>, because their type mentions the state
  \<open>'w\<close> they act on; an empty \<open>std::function\<close> is \<open>None\<close>. The owning loop is the
  poller or connection the channel is used with below.
\<close>

record Channel =
  fd :: int
  events :: "32 word"
  revents :: "32 word"
  index :: int
  tied :: bool

record 'w ChannelCallbacks =
  readCallBack :: "(Timestamp \<Rightarrow> 'w \<Rightarrow> 'w) option"
  writeCallback :: "('w \<Rightarrow> 'w) option"
  closeCallback :: "('w \<Rightarrow> 'w) option"
  errorCallback :: "('w \<Rightarrow> 'w) option"

text \<open>\<open>Channel::Channel(EventLoop *loop, int fd)\<close>.\<close>

definition Channel_new :: "int \<Rightarrow> Channel" where
  "Channel_new sockfd = \<lparr>fd = sockfd, events = 0, revents = 0, index = - 1, tied = False\<rparr>"

definition set_revents :: "32 word \<Rightarrow> Channel \<Rightarrow> Channel" where
  "set_revents rv ch = ch\<lparr>revents := rv\<rparr>"

definition set_index :: "int \<Rightarrow> Channel \<Rightarrow> Channel" where
  "set_index i ch = ch\<lparr>index := i\<rparr>"

definition is_none_event :: "Channel \<Rightarrow> bool" where
  "is_none_event ch \<longleftrightarrow> events ch = KNoneEvent"

definition is_writing_event :: "Channel \<Rightarrow> bool" where
  "is_writing_event ch \<longleftrightarrow> events ch AND KWriteEvent \<noteq> 0"

definition is_reading_event :: "Channel \<Rightarrow> bool" where
  "is_reading_event ch \<longleftrightarrow> events ch AND KReadEvent \<noteq> 0"

text \<open>
  \<open>handle_event_with_guard\<close>: four tests of \<open>revents_\<close> in sequence, each calling its
  callback when the callback is set. The callbacks act on a state \<open>'w\<close> that does not
  hold \<open>revents_\<close>: in this repository only \<open>EPollPoller::fill_active_channels\<close> writes
  that member, before the dispatch.
\<close>

definition call0 :: "('w \<Rightarrow> 'w) option \<Rightarrow> 'w \<Rightarrow> 'w" where
  "call0 cb w = (case cb of None \<Rightarrow> w | Some f \<Rightarrow> f w)"

definition call1 :: "('a \<Rightarrow> 'w \<Rightarrow> 'w) option \<Rightarrow> 'a \<Rightarrow> 'w \<Rightarrow> 'w" where
  "call1 cb a w = (case cb of None \<Rightarrow> w | Some f \<Rightarrow> f a w)"

definition handle_event_with_guard ::
  "Channel \<Rightarrow> 'w ChannelCallbacks \<Rightarrow> Timestamp \<Rightarrow> 'w \<Rightarrow> 'w" where
  "handle_event_with_guard ch cbs recvTime w =
     (let w1 = (if revents ch AND EPOLLHUP \<noteq> 0 \<and> \<not> (revents ch AND EPOLLIN \<noteq> 0)
                then call0 (closeCallback cbs) w else w);
          w2 = (if revents ch AND EPOLLERR \<noteq> 0
                then call0 (errorCallback cbs) w1 else w1);
          w3 = (if revents ch AND (EPOLLIN OR EPOLLPRI) \<noteq> 0
                then call1 (readCallBack cbs) recvTime w2 else w2);
          w4 = (if revents ch AND EPOLLOUT \<noteq> 0
                then call0 (writeCallback cbs) w3 else w3)
      in w4)"

text \<open>
  \<open>handle_event\<close>: with a tie installed, the event is dropped unless the weak
  reference can be locked (\<open>owner_alive\<close>).
\<close>

definition handle_event ::
  "Channel \<Rightarrow> 'w ChannelCallbacks \<Rightarrow> bool \<Rightarrow> Timestamp \<Rightarrow> 'w \<Rightarrow> 'w" where
  "handle_event ch cbs owner_alive recvTime w =
     (if tied ch
      then (if owner_alive then handle_event_with_guard ch cbs recvTime w else w)
      else handle_event_with_guard ch cbs recvTime w)"

text \<open>
  The dispatch order in the words of the specification, to compare the code with: the
  list of callbacks to run for a ready-event mask, by the bits of the mask (readable
  is bit 0, priority-readable bit 1, writable bit 2, error bit 3, hang-up bit 4).
\<close>

datatype callback_kind = CloseCb | ErrorCb | ReadCb Timestamp | WriteCb

definition spec_dispatch_order :: "32 word \<Rightarrow> Timestamp \<Rightarrow> callback_kind list" where
  "spec_dispatch_order m t =
     (if bit m 4 \<and> \<not> bit m 0 then [CloseCb] else []) @
     (if bit m 3 then [ErrorCb] else []) @
     (if bit m 0 \<or> bit m 1 then [ReadCb t] else []) @
     (if bit m 2 then [WriteCb] else [])"

text \<open>Running one callback of a kind: the installed one, or nothing when none is set.\<close>

fun invoke :: "'w ChannelCallbacks \<Rightarrow> 'w \<Rightarrow> callback_kind \<Rightarrow> 'w" where
  "invoke cbs w CloseCb = call0 (closeCallback cbs) w"
| "invoke cbs w ErrorCb = call0 (errorCallback cbs) w"
| "invoke cbs w (ReadCb t) = call1 (readCallBack cbs) t w"
| "invoke cbs w WriteCb = call0 (writeCallback cbs) w"

text \<open>Callbacks that only record their call, all four installed.\<close>

definition recording_callbacks :: "callback_kind list ChannelCallbacks" where
  "recording_callbacks =
     \<lparr>readCallBack = Some (\<lambda>t log. log @ [ReadCb t]),
      writeCallback = Some (\<lambda>log. log @ [WriteCb]),
      closeCallback = Some (\<lambda>log. log @ [CloseCb]),
      errorCallback = Some (\<lambda>log. log @ [ErrorCb])\<rparr>"

section \<open>Poller and EPollPoller (src/Poller.cpp, src/EPollPoller.cpp)\<close>

text \<open>
  The poller holds \<open>Channel *\<close> pointers, and \<open>has_channel\<close> compares them, so the
  channels live in a store: a pointer is an address, \<open>heap\<close> gives the object at an
  address. \<open>channels\<close> is the member \<open>Poller::channels_\<close>, a map from file descriptor
  to pointer. The kernel side of the epoll instance is the sequence of \<open>epoll_ctl\<close>
  calls issued on it; a failing call is only logged by \<open>EPollPoller::update\<close> and
  changes nothing else.
\<close>

type_synonym chan_ptr = nat

datatype epoll_op = EPOLL_CTL_ADD | EPOLL_CTL_DEL | EPOLL_CTL_MOD

record epoll_ctl_call =
  ctl_op :: epoll_op
  ctl_fd :: int
  ctl_events :: "32 word"
  ctl_ptr :: chan_ptr

record poller_state =
  heap :: "chan_ptr \<Rightarrow> Channel"
  channels :: "int \<rightharpoonup> chan_ptr"
  epoll_calls :: "epoll_ctl_call list"

definition kNew :: int where
  "kNew = - 1"

definition kAdded :: int where
  "kAdded = 1"

definition kDeleted :: int where
  "kDeleted = 2"

text \<open>\<open>EPollPoller::update(operation, channel)\<close>.\<close>

definition update :: "epoll_op \<Rightarrow> chan_ptr \<Rightarrow> poller_state \<Rightarrow> poller_state" where
  "update operation channel s =
     s\<lparr>epoll_calls := epoll_calls s @
          [\<lparr>ctl_op = operation, ctl_fd = fd (heap s channel),
            ctl_events = events (heap s channel), ctl_ptr = channel\<rparr>]\<rparr>"

definition store_index :: "chan_ptr \<Rightarrow> int \<Rightarrow> poller_state \<Rightarrow> poller_state" where
  "store_index channel i s = s\<lparr>heap := (heap s)(channel := set_index i (heap s channel))\<rparr>"

definition update_channel :: "chan_ptr \<Rightarrow> poller_state \<Rightarrow> poller_state" where
  "update_channel channel s =
     (let idx = index (heap s channel)
      in if idx = kNew \<or> idx = kDeleted
         then
           (let s1 = (if idx = kNew
                      then s\<lparr>channels := (channels s)(fd (heap s channel) \<mapsto> channel)\<rparr>
                      else s);
                s2 = store_index channel kAdded s1
            in update EPOLL_CTL_ADD channel s2)
         else
           (if is_none_event (heap s channel)
            then store_index channel kDeleted (update EPOLL_CTL_DEL channel s)
            else update EPOLL_CTL_MOD channel s))"

definition remove_channel :: "chan_ptr \<Rightarrow> poller_state \<Rightarrow> poller_state" where
  "remove_channel channel s =
     (let sockfd = fd (heap s channel)
      in if channels s sockfd \<noteq> None
         then
           (let s1 = s\<lparr>channels := (channels s)(sockfd := None)\<rparr>;
                s2 = (if index (heap s1 channel) = kAdded
                      then update EPOLL_CTL_DEL channel s1 else s1)
            in store_index channel kNew s2)
         else s)"

text \<open>\<open>Poller::has_channel\<close>: \<open>it != channels_.end() && it->second == channel\<close>.\<close>

definition has_channel :: "chan_ptr \<Rightarrow> poller_state \<Rightarrow> bool" where
  "has_channel channel s =
     (case channels s (fd (heap s channel)) of
        None \<Rightarrow> False
      | Some c \<Rightarrow> c = channel)"

text \<open>
  A fresh poller with two Channel objects for the same descriptor 3, at the addresses
  0 and 1, both interested in reading, none registered yet.
\<close>

definition two_channels :: poller_state where
  "two_channels =
     \<lparr>heap = (\<lambda>_. Channel_new (- 1))
               (0 := (Channel_new 3)\<lparr>events := KReadEvent\<rparr>,
                1 := (Channel_new 3)\<lparr>events := KReadEvent\<rparr>),
      channels = Map.empty,
      epoll_calls = []\<rparr>"

text \<open>Only the channel at 0 is registered.\<close>

definition first_registered :: poller_state where
  "first_registered = update_channel 0 two_channels"

text \<open>
  The channel at 0 is registered and then drops its interest (the assignment of
  \<open>Channel::disable_all\<close>, before its call of \<open>update\<close>).
\<close>

definition first_uninterested :: poller_state where
  "first_uninterested =
     first_registered\<lparr>heap := (heap first_registered)
        (0 := (heap first_registered 0)\<lparr>events := KNoneEvent\<rparr>)\<rparr>"

text \<open>Both are registered, then the one at 0 is removed.\<close>

definition first_removed :: poller_state where
  "first_removed = remove_channel 0 (update_channel 1 (update_channel 0 two_channels))"

section \<open>EventLoopThreadPool (src/EventLoopThreadPool.cpp)\<close>

text \<open>
  An \<open>EventLoop *\<close> is an address. The member \<open>next_\<close> is an \<open>int\<close> that starts at 0
  and is only incremented or reset to 0 by \<open>get_next_loop\<close>, below the size of the
  vector: a natural number, called \<open>next_idx\<close> here. The owned thread objects
  (\<open>threads_\<close>) play no part in the dispatch and are left out.
\<close>

type_synonym loop_ptr = nat

record EventLoopThreadPool =
  baseLoop :: loop_ptr
  started :: bool
  numThreads :: nat
  next_idx :: nat
  loops :: "loop_ptr list"

definition EventLoopThreadPool_new :: "loop_ptr \<Rightarrow> EventLoopThreadPool" where
  "EventLoopThreadPool_new base =
     \<lparr>baseLoop = base, started = False, numThreads = 0, next_idx = 0, loops = []\<rparr>"

definition set_thread_num :: "nat \<Rightarrow> EventLoopThreadPool \<Rightarrow> EventLoopThreadPool" where
  "set_thread_num n p = p\<lparr>numThreads := n\<rparr>"

text \<open>
  \<open>start\<close>: each of the \<open>numThreads_\<close> rounds of the loop starts a thread and pushes the
  loop pointer it publishes; \<open>published\<close> are those pointers, in order.
\<close>

definition start :: "loop_ptr list \<Rightarrow> EventLoopThreadPool \<Rightarrow> EventLoopThreadPool" where
  "start published p =
     p\<lparr>started := True, loops := loops p @ take (numThreads p) published\<rparr>"

definition get_next_loop :: "EventLoopThreadPool \<Rightarrow> loop_ptr \<times> EventLoopThreadPool" where
  "get_next_loop p =
     (if loops p \<noteq> []
      then
        (let loop = loops p ! next_idx p;
             n = next_idx p + 1
         in (loop, p\<lparr>next_idx := (if n \<ge> length (loops p) then 0 else n)\<rparr>))
      else (baseLoop p, p))"

text \<open>
  \<open>TcpServer::new_connection\<close> calls \<open>get_next_loop\<close> once for each accepted connection
  and constructs the connection on the loop it returns. The loops chosen for \<open>m\<close>
  accepts in sequence:
\<close>

fun accept_loops :: "nat \<Rightarrow> EventLoopThreadPool \<Rightarrow> loop_ptr list \<times> EventLoopThreadPool" where
  "accept_loops 0 p = ([], p)"
| "accept_loops (Suc m) p =
     (let (ioLoop, p1) = get_next_loop p;
          (rest, p2) = accept_loops m p1
      in (ioLoop # rest, p2))"

section \<open>EventLoop task queue and TcpConnection (src/EventLoop.cpp, src/TcpConnection.cpp)\<close>

text \<open>
  One connection together with the parts of its loop and of its environment that its
  methods touch. The state is passed through every method.
  \<^item> \<open>pendingFunctors\<close> is the loop's queue \<open>pendingFuntors_\<close>. A queued
    \<open>std::function<void()>\<close> is one of the four bind expressions of TcpConnection.cpp,
    with the values the bind expression captured.
  \<^item> \<open>memory\<close> is the memory of the callers: the bytes stored from an address on. A
    caller's \<open>std::string\<close> is the address of its character array.
  \<^item> \<open>write_answers\<close> is what the kernel will answer to the successive \<open>::write\<close>
    calls on the socket: a number of bytes accepted, or an error with its error number.
    When the list is used up the kernel answers \<open>EWOULDBLOCK\<close>. An answer \<open>EPIPE\<close>
    presupposes that \<open>SIGPIPE\<close> is ignored or blocked; the repository leaves the
    disposition of the signal as it finds it.
  \<^item> \<open>errno\<close> is the variable of that name of the loop's thread. A system call that
    fails stores its error number there; one that succeeds leaves it as it is.
  \<^item> \<open>log_answers\<close> is what the logger leaves in \<open>errno\<close>, for the successive log
    lines: \<open>None\<close> when it leaves \<open>errno\<close> as it was, \<open>Some e\<close> when it leaves \<open>e\<close>.
    When the list is used up the logger leaves \<open>errno\<close> as it was.
  \<^item> \<open>alloc_answers\<close> is what the allocator answers to the successive calls of
    \<open>append\<close> on the output buffer: \<open>None\<close> when the allocation succeeds, the exception
    otherwise. When the list is used up the allocation succeeds.
  \<^item> \<open>fate\<close> tells whether the loop still runs. An exception that leaves the output
    buffer is caught nowhere on its way out of \<open>EventLoop::loop\<close>, and a write outside
    the buffer's array has no defined behaviour; the model follows the connection up
    to there and no further.
  \<^item> \<open>trace\<close> is what the connection did, in order: system calls, calls of
    \<open>Channel::update\<close>, function objects pushed on the queue, wake-ups of the loop,
    runs of user callbacks, log lines. What a user callback does when it runs is
    outside the model.
  The members that hold user callbacks are booleans: whether the \<open>std::function\<close> is
  set. Of the system calls only those on the socket's data path are recorded
  (\<open>write\<close>, \<open>shutdown\<close>), of the log lines only \<open>LogError\<close>. The input side
  (\<open>handle_read\<close>, the input buffer) and the teardown (\<open>handle_close\<close>,
  \<open>handle_error\<close>, \<open>connect_destroyed\<close>) are not part of the model. Of the
  allocations only that of the output buffer is followed: its size is that of the
  data sent. The byte counts that the connection adds (\<open>oldLen + remaining\<close>) are
  lengths of two arrays that are in memory together, and are added as natural numbers.
\<close>

datatype StateE = kDisconnected | kConnecting | kConnected | kDisconnecting

definition EWOULDBLOCK :: int where
  "EWOULDBLOCK = 11"

definition EPIPE :: int where
  "EPIPE = 32"

definition ECONNRESET :: int where
  "ECONNRESET = 104"

datatype write_result = Wrote nat | WriteError int

datatype fate = Running | Uncaught cpp_exception | UndefinedBehaviour

type_synonym addr = nat

datatype Functor =
    WriteCompleteTask
  | HighWaterMarkTask nat
  | SendInLoopTask addr nat
  | ShutDownInLoopTask

datatype io_event =
    SysWrite "byte list"
  | SysShutdownWr
  | ChannelUpdate "32 word"
  | Queued Functor
  | Wakeup
  | UserConnection
  | UserWriteComplete
  | UserHighWaterMark nat
  | LogError

record conn =
  state :: StateE
  connChannel :: Channel
  outputBuffer :: Buffer
  highWaterMark :: nat
  connectionCallback :: bool
  writeCompleteCallback :: bool
  highWaterMarkCallback :: bool
  pendingFunctors :: "Functor list"
  callingPendingFunctors :: bool
  memory :: "addr \<Rightarrow> byte list"
  write_answers :: "write_result list"
  errno :: int
  log_answers :: "int option list"
  alloc_answers :: "allocation list"
  fate :: fate
  trace :: "io_event list"

text \<open>
  \<open>LogError(...)\<close> expands to \<open>Wlogger::instance()->log(LogLevel::ERROR, ...)\<close>
  (log/include/logger.h). \<open>Wlogger::log\<close> (log/src/wLog.cpp) reads the clock, formats
  the line, writes it to the terminal with \<open>::write(STDOUT_FILENO, ...)\<close> and to the log
  file through \<open>write_log_to_file\<close>, which may call \<open>mkdir\<close> and open a new file. It
  checks the result of none of these calls and does not save \<open>errno\<close>: a call of the
  logger that fails overwrites it.
\<close>

definition log_error :: "conn \<Rightarrow> conn" where
  "log_error c =
     (case log_answers c of
        [] \<Rightarrow> c\<lparr>trace := trace c @ [LogError]\<rparr>
      | None # rest \<Rightarrow> c\<lparr>log_answers := rest, trace := trace c @ [LogError]\<rparr>
      | Some e # rest \<Rightarrow> c\<lparr>errno := e, log_answers := rest, trace := trace c @ [LogError]\<rparr>)"

text \<open>
  \<open>::write(fd, data, len)\<close> on the socket. The kernel accepts at most the bytes it is
  offered. The result \<open>WriteError e\<close> stands for the return value \<open>-1\<close>, with \<open>e\<close>
  stored in \<open>errno\<close>.
\<close>

definition sock_write :: "byte list \<Rightarrow> conn \<Rightarrow> write_result \<times> conn" where
  "sock_write data c =
     (case write_answers c of
        [] \<Rightarrow> (WriteError EWOULDBLOCK, c\<lparr>errno := EWOULDBLOCK\<rparr>)
      | Wrote n # rest \<Rightarrow>
          (Wrote (min n (length data)),
           c\<lparr>write_answers := rest,
             trace := trace c @ [SysWrite (take (min n (length data)) data)]\<rparr>)
      | WriteError e # rest \<Rightarrow> (WriteError e, c\<lparr>write_answers := rest, errno := e\<rparr>))"

text \<open>
  \<open>Channel::update\<close> hands the channel to the poller of the loop; the connection sees
  no effect of it. The methods of its channel that the connection calls:
\<close>

definition channel_update :: "conn \<Rightarrow> conn" where
  "channel_update c = c\<lparr>trace := trace c @ [ChannelUpdate (events (connChannel c))]\<rparr>"

definition enable_reading :: "conn \<Rightarrow> conn" where
  "enable_reading c =
     channel_update
       (c\<lparr>connChannel := (connChannel c)\<lparr>events := events (connChannel c) OR KReadEvent\<rparr>\<rparr>)"

definition enable_writing :: "conn \<Rightarrow> conn" where
  "enable_writing c =
     channel_update
       (c\<lparr>connChannel := (connChannel c)\<lparr>events := events (connChannel c) OR KWriteEvent\<rparr>\<rparr>)"

definition disable_writing :: "conn \<Rightarrow> conn" where
  "disable_writing c =
     channel_update
       (c\<lparr>connChannel :=
            (connChannel c)\<lparr>events := events (connChannel c) AND NOT KWriteEvent\<rparr>\<rparr>)"

text \<open>
  \<open>EventLoop::queue_in_loop\<close>; \<open>in_loop\<close> is \<open>is_in_loop_thread()\<close> for the calling
  thread.
\<close>

definition queue_in_loop :: "bool \<Rightarrow> Functor \<Rightarrow> conn \<Rightarrow> conn" where
  "queue_in_loop in_loop cb c =
     (let c1 = c\<lparr>pendingFunctors := pendingFunctors c @ [cb],
                 trace := trace c @ [Queued cb]\<rparr>
      in if \<not> in_loop \<or> callingPendingFunctors c1
         then c1\<lparr>trace := trace c1 @ [Wakeup]\<rparr>
         else c1)"

text \<open>
  \<open>TcpConnection::send_in_loop(data, len)\<close>, always run on the loop's thread. \<open>data\<close>
  is the \<open>len\<close> bytes found at the pointer when the method runs. The method is given
  in the three parts in which it is written.

  First the block \<open>if (!connChannel_->is_writing_event() && outputBuffer_.readable_bytes() == 0)\<close>,
  the direct write. It yields \<open>nwrote\<close> and \<open>faultError\<close>; \<open>remaining\<close> is
  \<open>len - nwrote\<close> on each of its paths. On the error path the method reads \<open>errno\<close>
  twice: for the test against \<open>EWOULDBLOCK\<close> before it logs the error, and for the test
  against \<open>EPIPE\<close> and \<open>ECONNRESET\<close> after.
\<close>

definition try_direct_write :: "byte list \<Rightarrow> conn \<Rightarrow> nat \<times> bool \<times> conn" where
  "try_direct_write data c =
     (if \<not> is_writing_event (connChannel c) \<and> readable_bytes (outputBuffer c) = 0
      then
        (case sock_write data c of
           (Wrote n, c') \<Rightarrow>
             (n, False,
              if length data - n = 0 \<and> writeCompleteCallback c'
              then queue_in_loop True WriteCompleteTask c' else c')
         | (WriteError e, c') \<Rightarrow>
             (if errno c' \<noteq> EWOULDBLOCK
              then (let c'' = log_error c'
                    in (0, errno c'' = EPIPE \<or> errno c'' = ECONNRESET, c''))
              else (0, False, c')))
      else (0, False, c))"

text \<open>
  The body of the block \<open>if (!faultError && remaining > 0)\<close>. When \<open>append\<close> does not
  return, the method is left there.
\<close>

definition next_allocation :: "conn \<Rightarrow> allocation \<times> conn" where
  "next_allocation c =
     (case alloc_answers c of
        [] \<Rightarrow> (None, c)
      | a # rest \<Rightarrow> (a, c\<lparr>alloc_answers := rest\<rparr>))"

definition buffer_remaining :: "byte list \<Rightarrow> nat \<Rightarrow> conn \<Rightarrow> conn" where
  "buffer_remaining data nwrote c =
     (let remaining = length data - nwrote;
          oldLen = readable_bytes (outputBuffer c);
          c1 = (if oldLen + remaining \<ge> highWaterMark c \<and>
                   oldLen < highWaterMark c \<and> highWaterMarkCallback c
                then queue_in_loop True (HighWaterMarkTask (oldLen + remaining)) c
                else c);
          (a, c2) = next_allocation c1
      in case append_buf a (outputBuffer c2) (drop nwrote data) of
           Returned b \<Rightarrow>
             (let c3 = c2\<lparr>outputBuffer := b\<rparr>
              in if \<not> is_writing_event (connChannel c3) then enable_writing c3 else c3)
         | Thrown e b \<Rightarrow> c2\<lparr>outputBuffer := b, fate := Uncaught e\<rparr>
         | Undefined \<Rightarrow> c2\<lparr>fate := UndefinedBehaviour\<rparr>)"

definition send_in_loop :: "byte list \<Rightarrow> conn \<Rightarrow> conn" where
  "send_in_loop data c =
     (if state c = kDisconnected then log_error c
      else
        (let (nwrote, faultError, c1) = try_direct_write data c;
             remaining = length data - nwrote
         in if \<not> faultError \<and> remaining > 0
            then buffer_remaining data nwrote c1
            else c1))"

definition shut_down_in_loop :: "conn \<Rightarrow> conn" where
  "shut_down_in_loop c =
     (if \<not> is_writing_event (connChannel c)
      then c\<lparr>trace := trace c @ [SysShutdownWr]\<rparr>
      else c)"

text \<open>Running a queued function object.\<close>

fun run_functor :: "Functor \<Rightarrow> conn \<Rightarrow> conn" where
  "run_functor WriteCompleteTask c = c\<lparr>trace := trace c @ [UserWriteComplete]\<rparr>"
| "run_functor (HighWaterMarkTask n) c = c\<lparr>trace := trace c @ [UserHighWaterMark n]\<rparr>"
| "run_functor (SendInLoopTask data len) c = send_in_loop (take len (memory c data)) c"
| "run_functor ShutDownInLoopTask c = shut_down_in_loop c"

definition run_in_loop :: "bool \<Rightarrow> Functor \<Rightarrow> conn \<Rightarrow> conn" where
  "run_in_loop in_loop cb c =
     (if in_loop then run_functor cb c else queue_in_loop in_loop cb c)"

text \<open>
  \<open>EventLoop::do_pending_functors\<close> swaps the queue into a local vector and calls its
  elements in order. A call that does not return ends the loop of calls.
\<close>

definition call_functor :: "conn \<Rightarrow> Functor \<Rightarrow> conn" where
  "call_functor c f = (if fate c = Running then run_functor f c else c)"

definition do_pending_functors :: "conn \<Rightarrow> conn" where
  "do_pending_functors c =
     (let functors = pendingFunctors c;
          c1 = c\<lparr>callingPendingFunctors := True, pendingFunctors := []\<rparr>;
          c2 = foldl call_functor c1 functors
      in if fate c2 = Running then c2\<lparr>callingPendingFunctors := False\<rparr> else c2)"

text \<open>
  \<open>TcpConnection::send(const std::string &buf)\<close>; \<open>buf\<close> is the address of the caller's
  string, \<open>in_loop\<close> tells whether the caller is on the loop's thread. The bind
  expression of the other branch captures \<open>buf.c_str()\<close> and \<open>buf.size()\<close>.
\<close>

definition send :: "bool \<Rightarrow> addr \<Rightarrow> conn \<Rightarrow> conn" where
  "send in_loop buf c =
     (if state c = kConnected
      then
        (if in_loop
         then send_in_loop (memory c buf) c
         else run_in_loop in_loop (SendInLoopTask buf (length (memory c buf))) c)
      else c)"

definition shut_down :: "bool \<Rightarrow> conn \<Rightarrow> conn" where
  "shut_down in_loop c =
     (if state c = kConnected
      then run_in_loop in_loop ShutDownInLoopTask (c\<lparr>state := kDisconnecting\<rparr>)
      else c)"

text \<open>
  \<open>handle_write\<close>; first the body of its block
  \<open>if (outputBuffer_.readable_bytes() == 0)\<close>, entered when the buffer has drained.
\<close>

definition output_drained :: "conn \<Rightarrow> conn" where
  "output_drained c =
     (let c1 = disable_writing c;
          c2 = (if writeCompleteCallback c1
                then queue_in_loop True WriteCompleteTask c1 else c1)
      in if state c2 = kDisconnecting then shut_down_in_loop c2 else c2)"

definition handle_write :: "conn \<Rightarrow> conn" where
  "handle_write c =
     (if is_writing_event (connChannel c)
      then
        (case sock_write (take (readable_bytes (outputBuffer c)) (peek (outputBuffer c))) c of
           (Wrote n, c1) \<Rightarrow>
             (if n > 0
              then
                (let c2 = c1\<lparr>outputBuffer := retrieve (outputBuffer c1) n\<rparr>
                 in if readable_bytes (outputBuffer c2) = 0
                    then output_drained c2
                    else c2)
              else log_error c1)
         | (WriteError e, c1) \<Rightarrow> log_error c1)
      else log_error c)"

text \<open>
  The constructor (as \<open>TcpServer::new_connection\<close> calls it and then copies the
  server's callbacks into the connection) and \<open>connect_Established\<close>. The output
  buffer is default-constructed; of a connection that exists the constructors have
  returned.
\<close>

definition TcpConnection_new :: "int \<Rightarrow> bool \<Rightarrow> bool \<Rightarrow> conn" where
  "TcpConnection_new sockfd conn_cb write_complete_cb =
     \<lparr>state = kConnecting,
      connChannel = Channel_new sockfd,
      outputBuffer = Buffer_init kInitialSize,
      highWaterMark = 64 * 1024 * 1024,
      connectionCallback = conn_cb,
      writeCompleteCallback = write_complete_cb,
      highWaterMarkCallback = False,
      pendingFunctors = [],
      callingPendingFunctors = False,
      memory = (\<lambda>_. []),
      write_answers = [],
      errno = 0,
      log_answers = [],
      alloc_answers = [],
      fate = Running,
      trace = []\<rparr>"

definition set_high_water_mark_callback :: "bool \<Rightarrow> conn \<Rightarrow> conn" where
  "set_high_water_mark_callback cb c = c\<lparr>highWaterMarkCallback := cb\<rparr>"

definition connect_Established :: "conn \<Rightarrow> conn" where
  "connect_Established c =
     (let c1 = c\<lparr>state := kConnected\<rparr>;
          c2 = c1\<lparr>connChannel := (connChannel c1)\<lparr>tied := True\<rparr>\<rparr>;
          c3 = enable_reading c2
      in if connectionCallback c3 then c3\<lparr>trace := trace c3 @ [UserConnection]\<rparr> else c3)"

text \<open>The level-triggered poller reports the socket writable \<open>k\<close> times in a row.\<close>

fun handle_writes :: "nat \<Rightarrow> conn \<Rightarrow> conn" where
  "handle_writes 0 c = c"
| "handle_writes (Suc k) c = handle_writes k (handle_write c)"

text \<open>
  Steps of the environment: a caller stores into its string, the kernel's answers,
  what the logger will leave in \<open>errno\<close>, the allocator's answers.
\<close>

definition caller_stores :: "addr \<Rightarrow> byte list \<Rightarrow> conn \<Rightarrow> conn" where
  "caller_stores a bs c = c\<lparr>memory := (memory c)(a := bs)\<rparr>"

definition kernel_will_answer :: "write_result list \<Rightarrow> conn \<Rightarrow> conn" where
  "kernel_will_answer answers c = c\<lparr>write_answers := answers\<rparr>"

definition logger_will_leave :: "int option list \<Rightarrow> conn \<Rightarrow> conn" where
  "logger_will_leave answers c = c\<lparr>log_answers := answers\<rparr>"

definition allocator_will_answer :: "allocation list \<Rightarrow> conn \<Rightarrow> conn" where
  "allocator_will_answer answers c = c\<lparr>alloc_answers := answers\<rparr>"

text \<open>Readings of a state and of a trace used in the statements.\<close>

definition pending_bytes :: "conn \<Rightarrow> byte list" where
  "pending_bytes c = take (readable_bytes (outputBuffer c)) (peek (outputBuffer c))"

definition trace_since :: "conn \<Rightarrow> conn \<Rightarrow> io_event list" where
  "trace_since c c' = drop (length (trace c)) (trace c')"

definition queued_since :: "conn \<Rightarrow> conn \<Rightarrow> Functor list" where
  "queued_since c c' = drop (length (pendingFunctors c)) (pendingFunctors c')"

fun written_bytes :: "io_event list \<Rightarrow> byte list" where
  "written_bytes [] = []"
| "written_bytes (SysWrite bs # es) = bs @ written_bytes es"
| "written_bytes (_ # es) = written_bytes es"

text \<open>
  The case \<open>faultError\<close>, read off the state in which \<open>send_in_loop\<close> is called and the
  answers of its environment: the method attempts the direct write, the kernel answers
  with an error other than \<open>EWOULDBLOCK\<close>, and \<open>errno\<close> holds \<open>EPIPE\<close> or \<open>ECONNRESET\<close>
  once the error has been logged, which is the error number of the write if the logger
  left \<open>errno\<close> as it was, and what the logger left there otherwise.
\<close>

definition errno_after_log :: "int \<Rightarrow> int option list \<Rightarrow> int" where
  "errno_after_log e answers = (case answers of Some e' # rest \<Rightarrow> e' | _ \<Rightarrow> e)"

definition direct_write_fault :: "conn \<Rightarrow> bool" where
  "direct_write_fault c \<longleftrightarrow>
     \<not> is_writing_event (connChannel c) \<and> readable_bytes (outputBuffer c) = 0 \<and>
     (case write_answers c of
        WriteError e # rest \<Rightarrow>
          e \<noteq> EWOULDBLOCK \<and>
          (errno_after_log e (log_answers c) = EPIPE \<or>
           errno_after_log e (log_answers c) = ECONNRESET)
      | _ \<Rightarrow> False)"

fun is_high_water_mark_task :: "Functor \<Rightarrow> bool" where
  "is_high_water_mark_task (HighWaterMarkTask n) = True"
| "is_high_water_mark_task _ = False"

text \<open>
  Two predicates for the proof of the half-close ordering. They relate a connection
  \<open>c\<close> on which \<open>shut_down\<close> was called with buffered output to a later state \<open>c'\<close>:
  while bytes remain, and once the buffer has drained.
\<close>

definition half_close_pending :: "conn \<Rightarrow> conn \<Rightarrow> bool" where
  "half_close_pending c c' \<longleftrightarrow>
     state c' = kDisconnecting \<and> Buffer_inv (outputBuffer c') \<and>
     is_writing_event (connChannel c') \<and> 0 < readable_bytes (outputBuffer c') \<and>
     writeCompleteCallback c' = writeCompleteCallback c \<and>
     pendingFunctors c' = pendingFunctors c \<and>
     (\<exists>T. trace c' = trace c @ T \<and> SysShutdownWr \<notin> set T \<and> UserWriteComplete \<notin> set T \<and>
          written_bytes T @ pending_bytes c' = pending_bytes c)"

definition half_close_done :: "conn \<Rightarrow> conn \<Rightarrow> bool" where
  "half_close_done c c' \<longleftrightarrow>
     state c' = kDisconnecting \<and> \<not> is_writing_event (connChannel c') \<and>
     readable_bytes (outputBuffer c') = 0 \<and>
     pendingFunctors c' =
       pendingFunctors c @ (if writeCompleteCallback c then [WriteCompleteTask] else []) \<and>
     (\<exists>pre post. trace c' = trace c @ pre @ SysShutdownWr # post \<and>
          SysShutdownWr \<notin> set pre \<and> set post \<subseteq> {LogError} \<and>
          UserWriteComplete \<notin> set pre \<and> written_bytes pre = pending_bytes c \<and>
          (writeCompleteCallback c \<longrightarrow> Queued WriteCompleteTask \<in> set pre))"

text \<open>
  Example states. A connection on descriptor 5 with connection and write-complete
  callbacks, established; the same after a \<open>send\<close> on the loop's thread of the two
  bytes at address 0 of which the kernel accepted one, so that one byte is buffered
  and write interest is on.
\<close>

definition ex_established :: conn where
  "ex_established = connect_Established (TcpConnection_new 5 True True)"

definition ex_draining :: conn where
  "ex_draining =
     send True 0
       (kernel_will_answer [Wrote 1, Wrote 1] (caller_stores 0 [104, 105] ex_established))"

text \<open>
  A caller on another thread holds the string "hello" at address 0 and calls \<open>send\<close>;
  after \<open>send\<close> has returned it overwrites the string with "Jello"; then the loop
  runs its pending function objects.
\<close>

definition ex_hello :: conn where
  "ex_hello =
     kernel_will_answer [Wrote 5] (caller_stores 0 [104, 101, 108, 108, 111] ex_established)"

definition ex_posted :: conn where
  "ex_posted = send False 0 ex_hello"

definition ex_overwritten :: conn where
  "ex_overwritten = caller_stores 0 [74, 101, 108, 108, 111] ex_posted"

definition ex_sent :: conn where
  "ex_sent = do_pending_functors ex_overwritten"

text \<open>
  An established connection with a high-water-mark callback whose socket accepts
  nothing (\<open>EWOULDBLOCK\<close>), and one whose socket answers \<open>EPIPE\<close>.
\<close>

definition ex_blocked :: conn where
  "ex_blocked =
     set_high_water_mark_callback True
       (kernel_will_answer [WriteError EWOULDBLOCK] ex_established)"

definition ex_broken :: conn where
  "ex_broken =
     set_high_water_mark_callback True (kernel_will_answer [WriteError EPIPE] ex_established)"

text \<open>
  The same with a logger whose write of the log line fails and leaves \<open>EBADF\<close> (9) in
  \<open>errno\<close>.
\<close>

definition ex_log_fails :: conn where
  "ex_log_fails = logger_will_leave [Some 9] ex_broken"

text \<open>
  An established connection whose socket accepts nothing and that has no
  high-water-mark callback.
\<close>

definition ex_unset :: conn where
  "ex_unset = kernel_will_answer [WriteError EWOULDBLOCK] ex_established"

text \<open>
  The invariant of the output side: the buffer is well formed, and write interest is
  on whenever bytes are buffered. The methods of the model as a datatype, and a run of
  them from a connection just established, which goes on as long as the loop runs.
\<close>

definition output_watched :: "conn \<Rightarrow> bool" where
  "output_watched c \<longleftrightarrow>
     Buffer_inv (outputBuffer c) \<and>
     (0 < readable_bytes (outputBuffer c) \<longrightarrow> is_writing_event (connChannel c))"

datatype conn_op =
    Send bool addr
  | ShutDown bool
  | HandleWrite
  | DoPendingFunctors
  | SetHighWaterMarkCallback bool
  | CallerStores addr "byte list"
  | KernelWillAnswer "write_result list"
  | LoggerWillLeave "int option list"
  | AllocatorWillAnswer "allocation list"

fun call_method :: "conn \<Rightarrow> conn_op \<Rightarrow> conn" where
  "call_method c (Send in_loop buf) = send in_loop buf c"
| "call_method c (ShutDown in_loop) = shut_down in_loop c"
| "call_method c HandleWrite = handle_write c"
| "call_method c DoPendingFunctors = do_pending_functors c"
| "call_method c (SetHighWaterMarkCallback cb) = set_high_water_mark_callback cb c"
| "call_method c (CallerStores a bs) = caller_stores a bs c"
| "call_method c (KernelWillAnswer answers) = kernel_will_answer answers c"
| "call_method c (LoggerWillLeave answers) = logger_will_leave answers c"
| "call_method c (AllocatorWillAnswer answers) = allocator_will_answer answers c"

definition conn_step :: "conn \<Rightarrow> conn_op \<Rightarrow> conn" where
  "conn_step c x = (if fate c = Running then call_method c x else c)"

definition conn_run :: "int \<Rightarrow> bool \<Rightarrow> bool \<Rightarrow> conn_op list \<Rightarrow> conn" where
  "conn_run sockfd conn_cb write_complete_cb ops =
     foldl conn_step (connect_Established (TcpConnection_new sockfd conn_cb write_complete_cb)) ops"

subsection \<open>Buffer: \<open>size_t\<close> arithmetic\<close>

lemma size_add_eq: "a + b \<le> SIZE_MAX \<Longrightarrow> size_add a b = a + b"
  by (simp add: size_add_def SIZE_MAX_def)

lemma size_add_wrapped:
  "a \<le> SIZE_MAX \<Longrightarrow> b \<le> SIZE_MAX \<Longrightarrow> SIZE_MAX < a + b \<Longrightarrow>
   size_add a b = a + b - (SIZE_MAX + 1)"
proof -
  assume a: "a \<le> SIZE_MAX" and b: "b \<le> SIZE_MAX" and w: "SIZE_MAX < a + b"
  define r where "r = a + b - (SIZE_MAX + 1)"
  from a b w have "a + b = r + 2 ^ 64" and "r < 2 ^ 64"
    unfolding r_def SIZE_MAX_def by simp_all
  then show ?thesis
    unfolding size_add_def r_def [symmetric] by simp
qed

lemma size_sub_eq: "b \<le> a \<Longrightarrow> a \<le> SIZE_MAX \<Longrightarrow> size_sub a b = a - b"
proof -
  assume le: "b \<le> a" and a: "a \<le> SIZE_MAX"
  define m :: nat where "m = 2 ^ 64"
  from a have am: "a < m" unfolding m_def SIZE_MAX_def by simp
  with le have "b mod m = b" "a + (m - b) = (a - b) + m" "a - b < m"
    by simp_all
  then have "(a + (m - b mod m)) mod m = a - b"
    by simp
  then show ?thesis
    unfolding size_sub_def m_def .
qed

lemma max_size_bounds:
  "vector_max_size + vector_max_size < SIZE_MAX"
  "kCheapPrepend \<le> vector_max_size"
  "vector_max_size + extrabuf_size < SIZE_MAX"
  by (simp_all add: vector_max_size_def SIZE_MAX_def kCheapPrepend_def extrabuf_size_def)

lemma inv_bounds:
  assumes "Buffer_inv b"
  shows "kCheapPrepend \<le> readerIndex b" and "readerIndex b \<le> writerIndex b"
    and "writerIndex b \<le> length (buffer b)" and "length (buffer b) \<le> vector_max_size"
    and "length (buffer b) \<le> SIZE_MAX" and "writerIndex b \<le> SIZE_MAX"
  using assms max_size_bounds(1) unfolding Buffer_inv_def by simp_all

lemma inv_readable: "Buffer_inv b \<Longrightarrow> readable_bytes b = writerIndex b - readerIndex b"
  unfolding readable_bytes_def by (simp add: size_sub_eq inv_bounds)

lemma inv_writable: "Buffer_inv b \<Longrightarrow> writable_bytes b = length (buffer b) - writerIndex b"
  unfolding writable_bytes_def by (simp add: size_sub_eq inv_bounds)

lemma inv_space:
  assumes "Buffer_inv b"
  shows "size_add (writable_bytes b) (prependable_bytes b)
         = writable_bytes b + prependable_bytes b"
    and "kCheapPrepend \<le> writable_bytes b + prependable_bytes b"
    and "writable_bytes b + prependable_bytes b \<le> vector_max_size"
proof -
  note i = inv_bounds [OF assms]
  from i show s: "writable_bytes b + prependable_bytes b \<le> vector_max_size"
    by (simp add: inv_writable [OF assms] prependable_bytes_def)
  with max_size_bounds(1)
  show "size_add (writable_bytes b) (prependable_bytes b)
         = writable_bytes b + prependable_bytes b"
    by (intro size_add_eq) simp
  from i show "kCheapPrepend \<le> writable_bytes b + prependable_bytes b"
    by (simp add: prependable_bytes_def)
qed

subsection \<open>Buffer: the invariant\<close>

lemma length_std_copy:
  "pos + length src \<le> length dst \<Longrightarrow> length (std_copy src pos dst) = length dst"
  by (simp add: std_copy_def)

lemma Buffer_init_inv:
  "kCheapPrepend + n \<le> vector_max_size \<Longrightarrow> Buffer_inv (Buffer_init n)"
proof -
  assume "kCheapPrepend + n \<le> vector_max_size"
  with max_size_bounds(1) have "size_add kCheapPrepend n = kCheapPrepend + n"
    "kCheapPrepend + n \<le> vector_max_size"
    by (simp_all add: size_add_eq)
  then show ?thesis
    by (simp add: Buffer_inv_def Buffer_init_def)
qed

lemma Buffer_new_inv:
  assumes "Buffer_new a n = Inr b" and "n \<le> SIZE_MAX - kCheapPrepend"
  shows "b = Buffer_init n" and "Buffer_inv b"
proof -
  from assms(2) have "kCheapPrepend + n \<le> SIZE_MAX"
    by (simp add: SIZE_MAX_def kCheapPrepend_def)
  then have s: "size_add kCheapPrepend n = kCheapPrepend + n"
    by (rule size_add_eq)
  from assms(1) show b: "b = Buffer_init n"
    by (auto simp: Buffer_new_def split: option.splits)
  from assms(1) have "kCheapPrepend + n \<le> vector_max_size"
    unfolding Buffer_new_def s vector_alloc_def by (auto split: option.splits if_splits)
  then show "Buffer_inv b"
    unfolding b by (rule Buffer_init_inv)
qed

lemma retrieve_all_inv: "Buffer_inv b \<Longrightarrow> Buffer_inv (retrieve_all b)"
  by (simp add: Buffer_inv_def retrieve_all_def)

lemma retrieve_inv:
  assumes "Buffer_inv b"
  shows "Buffer_inv (retrieve b len)"
proof (cases "len < readable_bytes b")
  case True
  note i = inv_bounds [OF assms]
  from True have l: "readerIndex b + len < writerIndex b"
    by (simp add: inv_readable [OF assms])
  with i have "size_add (readerIndex b) len = readerIndex b + len"
    by (intro size_add_eq) simp
  with True l i show ?thesis
    by (simp add: retrieve_def Buffer_inv_def)
next
  case False
  with assms show ?thesis by (simp add: retrieve_def retrieve_all_inv)
qed

lemma make_space_compacts:
  assumes "Buffer_inv b"
    and "\<not> size_add (writable_bytes b) (prependable_bytes b) < size_add len kCheapPrepend"
  shows "make_space a b len = Returned (compacted b)"
proof -
  note i = inv_bounds [OF assms(1)]
  from i have "kCheapPrepend + readable_bytes b \<le> SIZE_MAX"
    by (simp add: inv_readable [OF assms(1)])
  then have "size_add kCheapPrepend (readable_bytes b) = kCheapPrepend + readable_bytes b"
    by (rule size_add_eq)
  with assms(2) i show ?thesis
    by (simp add: make_space_def compacted_def Let_def)
qed

lemma compacted_facts:
  assumes "Buffer_inv b"
  shows "Buffer_inv (compacted b)"
    and "length (buffer (compacted b)) = length (buffer b)"
    and "readerIndex (compacted b) = kCheapPrepend"
    and "readable_bytes (compacted b) = readable_bytes b"
    and "take (readable_bytes b) (peek (compacted b)) = take (readable_bytes b) (peek b)"
    and "writable_bytes (compacted b) + kCheapPrepend
         = writable_bytes b + prependable_bytes b"
proof -
  note i = inv_bounds [OF assms]
  define src where "src = take (readable_bytes b) (drop (readerIndex b) (buffer b))"
  from i have lsrc: "length src = readable_bytes b"
    unfolding src_def by (simp add: inv_readable [OF assms] min_absorb2 diff_le_mono)
  from i have room: "kCheapPrepend + readable_bytes b \<le> length (buffer b)"
    by (simp add: inv_readable [OF assms])
  with lsrc have len: "length (std_copy src kCheapPrepend (buffer b)) = length (buffer b)"
    by (intro length_std_copy) simp
  then show l: "length (buffer (compacted b)) = length (buffer b)"
    by (simp add: compacted_def src_def)
  from room i l show c: "Buffer_inv (compacted b)"
    unfolding Buffer_inv_def by (simp add: compacted_def)
  show "readerIndex (compacted b) = kCheapPrepend"
    by (simp add: compacted_def)
  show "readable_bytes (compacted b) = readable_bytes b"
    unfolding inv_readable [OF c] by (simp add: compacted_def)
  from room have "kCheapPrepend \<le> length (buffer b)" by simp
  then have "drop kCheapPrepend (std_copy src kCheapPrepend (buffer b))
             = src @ drop (kCheapPrepend + length src) (buffer b)"
    by (simp add: std_copy_def)
  with lsrc show "take (readable_bytes b) (peek (compacted b)) = take (readable_bytes b) (peek b)"
    by (simp add: peek_def compacted_def src_def [symmetric])
  from i room show "writable_bytes (compacted b) + kCheapPrepend
         = writable_bytes b + prependable_bytes b"
    unfolding inv_writable [OF c] inv_writable [OF assms] prependable_bytes_def l
    by (simp add: compacted_def inv_readable [OF assms])
qed

lemma make_space_resizes:
  assumes "Buffer_inv b" and "writable_bytes b < len"
    and "size_add (writable_bytes b) (prependable_bytes b) < size_add len kCheapPrepend"
    and "writerIndex b + len \<le> SIZE_MAX"
  shows "make_space a b len =
           (case vector_alloc a (writerIndex b + len) of
              Some e \<Rightarrow> Thrown e b
            | None \<Rightarrow> Returned (grown (writerIndex b + len) b))"
proof -
  note i = inv_bounds [OF assms(1)]
  from assms(4) have s: "size_add (writerIndex b) len = writerIndex b + len"
    by (rule size_add_eq)
  from assms(2) i have "\<not> writerIndex b + len \<le> length (buffer b)"
    by (simp add: inv_writable [OF assms(1)])
  with assms(3) show ?thesis
    by (simp add: make_space_def s vector_resize_def grown_def split: option.splits)
qed

lemma grown_facts:
  assumes "Buffer_inv b" and "length (buffer b) \<le> n" and "n \<le> vector_max_size"
  shows "Buffer_inv (grown n b)"
    and "length (buffer (grown n b)) = n"
    and "readerIndex (grown n b) = readerIndex b"
    and "writerIndex (grown n b) = writerIndex b"
    and "take (length (buffer b)) (buffer (grown n b)) = buffer b"
    and "readable_bytes (grown n b) = readable_bytes b"
    and "take (readable_bytes b) (peek (grown n b)) = take (readable_bytes b) (peek b)"
proof -
  note i = inv_bounds [OF assms(1)]
  from assms(2) show l: "length (buffer (grown n b)) = n"
    by (simp add: grown_def)
  from i assms(2,3) l show g: "Buffer_inv (grown n b)"
    unfolding Buffer_inv_def by (simp add: grown_def)
  show "readerIndex (grown n b) = readerIndex b" "writerIndex (grown n b) = writerIndex b"
    by (simp_all add: grown_def)
  show "take (length (buffer b)) (buffer (grown n b)) = buffer b"
    by (simp add: grown_def)
  show "readable_bytes (grown n b) = readable_bytes b"
    unfolding inv_readable [OF g] inv_readable [OF assms(1)] by (simp add: grown_def)
  from i have "readable_bytes b \<le> length (buffer b) - readerIndex b"
    by (simp add: inv_readable [OF assms(1)])
  then show "take (readable_bytes b) (peek (grown n b)) = take (readable_bytes b) (peek b)"
    by (simp add: peek_def grown_def)
qed

lemma size_add_le: "size_add a b \<le> a + b"
  by (simp add: size_add_def)

lemma test_no_wrap:
  assumes "Buffer_inv b" and "len \<le> SIZE_MAX - kCheapPrepend"
  shows "size_add (writable_bytes b) (prependable_bytes b) < size_add len kCheapPrepend
         \<longleftrightarrow> writable_bytes b + prependable_bytes b < len + kCheapPrepend"
proof -
  from assms(2) have "len + kCheapPrepend \<le> SIZE_MAX"
    by (simp add: SIZE_MAX_def kCheapPrepend_def)
  then have "size_add len kCheapPrepend = len + kCheapPrepend"
    by (rule size_add_eq)
  then show ?thesis
    by (simp add: inv_space(1) [OF assms(1)])
qed

lemma test_wrapped:
  assumes "Buffer_inv b" and "len \<le> SIZE_MAX" and "SIZE_MAX - kCheapPrepend < len"
  shows "\<not> size_add (writable_bytes b) (prependable_bytes b) < size_add len kCheapPrepend"
proof -
  have k: "kCheapPrepend \<le> SIZE_MAX"
    by (simp add: SIZE_MAX_def kCheapPrepend_def)
  from assms(3) have "SIZE_MAX < len + kCheapPrepend"
    by (simp add: SIZE_MAX_def kCheapPrepend_def)
  with assms(2) k have "size_add len kCheapPrepend = len + kCheapPrepend - (SIZE_MAX + 1)"
    by (intro size_add_wrapped)
  with assms(2) have "size_add len kCheapPrepend < kCheapPrepend"
    by (simp add: SIZE_MAX_def kCheapPrepend_def)
  with inv_space(2) [OF assms(1)] show ?thesis
    by (simp add: inv_space(1) [OF assms(1)])
qed

lemma request_fits:
  assumes "Buffer_inv b" and "len + kCheapPrepend \<le> writable_bytes b + prependable_bytes b"
  shows "len \<le> SIZE_MAX - kCheapPrepend"
proof -
  from assms(2) inv_space(3) [OF assms(1)] have "len + kCheapPrepend \<le> vector_max_size"
    by simp
  with max_size_bounds(1) show ?thesis by simp
qed

subsection \<open>Buffer: what \<open>ensure_writable_bytes\<close> does\<close>

lemma ensure_writable_enough:
  "\<not> writable_bytes b < len \<Longrightarrow> ensure_writable_bytes a b len = Returned b"
  by (simp add: ensure_writable_bytes_def)

lemma ensure_writable_thrown:
  "ensure_writable_bytes a b len = Thrown e b' \<Longrightarrow> b' = b"
  by (auto simp: ensure_writable_bytes_def make_space_def Let_def
      split: if_splits sum.splits)

lemma ensure_writable_defined:
  "Buffer_inv b \<Longrightarrow> ensure_writable_bytes a b len \<noteq> Undefined"
  by (auto simp: ensure_writable_bytes_def make_space_def Let_def Buffer_inv_def
      split: if_splits sum.splits)

lemma ensure_writable_compacts:
  assumes "Buffer_inv b" and "writable_bytes b < len"
    and "len + kCheapPrepend \<le> writable_bytes b + prependable_bytes b"
  shows "ensure_writable_bytes a b len = Returned (compacted b)"
proof -
  from assms(1,3) have "len \<le> SIZE_MAX - kCheapPrepend"
    by (rule request_fits)
  with assms(1,3)
  have "\<not> size_add (writable_bytes b) (prependable_bytes b) < size_add len kCheapPrepend"
    by (simp add: test_no_wrap)
  with assms(1,2) show ?thesis
    by (simp add: ensure_writable_bytes_def make_space_compacts)
qed

lemma ensure_writable_wrapped:
  assumes "Buffer_inv b" and "writable_bytes b < len"
    and "len \<le> SIZE_MAX" and "SIZE_MAX - kCheapPrepend < len"
  shows "ensure_writable_bytes a b len = Returned (compacted b)"
  using assms test_wrapped [OF assms(1,3,4)]
  by (simp add: ensure_writable_bytes_def make_space_compacts)

lemma ensure_writable_resizes:
  assumes "Buffer_inv b" and "writable_bytes b < len"
    and "writable_bytes b + prependable_bytes b < len + kCheapPrepend"
    and "writerIndex b + len \<le> SIZE_MAX"
  shows "ensure_writable_bytes a b len =
           (case vector_alloc a (writerIndex b + len) of
              Some e \<Rightarrow> Thrown e b
            | None \<Rightarrow> Returned (grown (writerIndex b + len) b))"
    and "length (buffer b) \<le> writerIndex b + len"
proof -
  note i = inv_bounds [OF assms(1)]
  from i assms(4) have "len \<le> SIZE_MAX - kCheapPrepend"
    by simp
  with assms(1,3)
  have "size_add (writable_bytes b) (prependable_bytes b) < size_add len kCheapPrepend"
    by (simp add: test_no_wrap)
  with assms(1,2,4) show "ensure_writable_bytes a b len =
           (case vector_alloc a (writerIndex b + len) of
              Some e \<Rightarrow> Thrown e b
            | None \<Rightarrow> Returned (grown (writerIndex b + len) b))"
    by (simp add: ensure_writable_bytes_def make_space_resizes)
  from assms(2) i show "length (buffer b) \<le> writerIndex b + len"
    by (simp add: inv_writable [OF assms(1)])
qed

text \<open>
  When \<open>ensure_writable_bytes\<close> has returned and the \<open>len\<close> bytes after the write
  cursor lie in the vector, the buffer is well formed and holds the readable bytes it
  held. This needs no bound on \<open>len\<close>.
\<close>

lemma ensure_writable_returned:
  assumes "Buffer_inv b" and "ensure_writable_bytes a b len = Returned b1"
    and "writerIndex b1 + len \<le> length (buffer b1)"
  shows "Buffer_inv b1"
    and "readable_bytes b1 = readable_bytes b"
    and "take (readable_bytes b) (peek b1) = take (readable_bytes b) (peek b)"
proof -
  note i = inv_bounds [OF assms(1)]
  have "Buffer_inv b1 \<and> readable_bytes b1 = readable_bytes b \<and>
        take (readable_bytes b) (peek b1) = take (readable_bytes b) (peek b)"
  proof (cases "writable_bytes b < len")
    case False
    with assms(2) have "b1 = b" by (simp add: ensure_writable_bytes_def)
    with assms(1) show ?thesis by simp
  next
    case short: True
    show ?thesis
    proof (cases "size_add (writable_bytes b) (prependable_bytes b) < size_add len kCheapPrepend")
      case False
      with assms(1,2) short have "b1 = compacted b"
        by (simp add: ensure_writable_bytes_def make_space_compacts)
      with compacted_facts [OF assms(1)] show ?thesis by simp
    next
      case True
      define n where "n = size_add (writerIndex b) len"
      have nle: "n \<le> writerIndex b + len"
        unfolding n_def by (rule size_add_le)
      from short i have big: "length (buffer b) < writerIndex b + len"
        by (simp add: inv_writable [OF assms(1)])
      from assms(2) short True
      have r: "vector_resize a n (buffer b) = Inr (buffer b1)"
        and c: "readerIndex b1 = readerIndex b" "writerIndex b1 = writerIndex b"
        and b1: "b1 = b\<lparr>buffer := buffer b1\<rparr>"
        unfolding n_def
        by (auto simp: ensure_writable_bytes_def make_space_def split: sum.splits)
      from r have "buffer b1 = (if n \<le> length (buffer b) then take n (buffer b)
                       else buffer b @ replicate (n - length (buffer b)) 0)"
        by (auto simp: vector_resize_def split: if_splits option.splits)
      then have ln: "length (buffer b1) = n"
        by (simp add: min_absorb2 split: if_splits)
      with assms(3) c nle have n: "n = writerIndex b + len" by simp
      with big r have g: "buffer b1 = buffer b @ replicate (n - length (buffer b)) 0"
        and a: "vector_alloc a n = None"
        by (auto simp: vector_resize_def split: if_splits option.splits)
      from a have "n \<le> vector_max_size"
        by (auto simp: vector_alloc_def split: if_splits)
      moreover from big n have "length (buffer b) \<le> n" by simp
      moreover from b1 g have "b1 = grown n b"
        by (simp add: grown_def)
      ultimately show ?thesis
        using grown_facts [OF assms(1), of n] by simp
    qed
  qed
  then show "Buffer_inv b1"
    and "readable_bytes b1 = readable_bytes b"
    and "take (readable_bytes b) (peek b1) = take (readable_bytes b) (peek b)"
    by simp_all
qed

text \<open>
  For a request that does not wrap around, \<open>ensure_writable_bytes\<close> that returns has
  made the room.
\<close>

lemma ensure_writable_room:
  assumes "Buffer_inv b" and "ensure_writable_bytes a b len = Returned b1"
    and "writerIndex b + len \<le> SIZE_MAX"
  shows "writerIndex b1 + len \<le> length (buffer b1)"
proof -
  note i = inv_bounds [OF assms(1)]
  show ?thesis
  proof (cases "writable_bytes b < len")
    case False
    with assms(2) have "b1 = b" by (simp add: ensure_writable_bytes_def)
    with False i show ?thesis by (simp add: inv_writable [OF assms(1)])
  next
    case short: True
    show ?thesis
    proof (cases "writable_bytes b + prependable_bytes b < len + kCheapPrepend")
      case True
      note z1 = ensure_writable_resizes(1) [OF assms(1) short True assms(3), of a]
      note z2 = ensure_writable_resizes(2) [OF assms(1) short True assms(3)]
      from assms(2) z1 have "b1 = grown (writerIndex b + len) b"
        by (auto split: option.splits)
      with z2 show ?thesis by (simp add: grown_def)
    next
      case False
      then have f: "len + kCheapPrepend \<le> writable_bytes b + prependable_bytes b" by simp
      from assms(2) ensure_writable_compacts [OF assms(1) short f, of a]
      have b1: "b1 = compacted b" by simp
      note c = compacted_facts [OF assms(1)]
      from c(6) f have "len \<le> writable_bytes (compacted b)" by simp
      with inv_bounds(3) [OF c(1)] show ?thesis
        unfolding b1 by (simp add: inv_writable [OF c(1)])
    qed
  qed
qed

text \<open>A direct call with an argument that \<open>no_wrap\<close> admits keeps the buffer well formed.\<close>

lemma ensure_writable_bytes_inv:
  assumes "Buffer_inv b" and "no_wrap b (OpEnsureWritable len)"
  shows "case ensure_writable_bytes a b len of
           Returned b1 \<Rightarrow> Buffer_inv b1
         | Thrown e b' \<Rightarrow> b' = b
         | Undefined \<Rightarrow> False"
proof -
  note i = inv_bounds [OF assms(1)]
  from assms(2) i(6) have l: "len \<le> SIZE_MAX"
    and w: "writerIndex b + len \<le> SIZE_MAX \<or> SIZE_MAX - kCheapPrepend < len"
    by auto
  show ?thesis
  proof (cases "writable_bytes b < len")
    case False
    with assms(1) show ?thesis by (simp add: ensure_writable_enough)
  next
    case short: True
    from w show ?thesis
    proof
      assume "SIZE_MAX - kCheapPrepend < len"
      with assms(1) short l have "ensure_writable_bytes a b len = Returned (compacted b)"
        by (intro ensure_writable_wrapped)
      with compacted_facts(1) [OF assms(1)] show ?thesis by simp
    next
      assume nw: "writerIndex b + len \<le> SIZE_MAX"
      show ?thesis
      proof (cases "ensure_writable_bytes a b len")
        case (Returned b1)
        from ensure_writable_room [OF assms(1) Returned nw]
        have "Buffer_inv b1"
          by (rule ensure_writable_returned(1) [OF assms(1) Returned])
        with Returned show ?thesis by simp
      next
        case (Thrown e b')
        with ensure_writable_thrown [OF Thrown] show ?thesis by simp
      next
        case Undefined
        with ensure_writable_defined [OF assms(1), of a len] show ?thesis by simp
      qed
    qed
  qed
qed

subsection \<open>Buffer: \<open>append\<close> and \<open>read_fd\<close>\<close>

lemma bytes_written:
  assumes "Buffer_inv b" and "writerIndex b + length d \<le> length (buffer b)"
  shows "Buffer_inv (b\<lparr>buffer := std_copy d (writerIndex b) (buffer b),
                       writerIndex := size_add (writerIndex b) (length d)\<rparr>)"
    and "size_add (writerIndex b) (length d) = writerIndex b + length d"
    and "take (readable_bytes b + length d)
           (drop (readerIndex b) (std_copy d (writerIndex b) (buffer b)))
         = take (readable_bytes b) (drop (readerIndex b) (buffer b)) @ d"
proof -
  note i = inv_bounds [OF assms(1)]
  from assms(2) i show s: "size_add (writerIndex b) (length d) = writerIndex b + length d"
    by (intro size_add_eq) simp
  from assms(2) i show "Buffer_inv (b\<lparr>buffer := std_copy d (writerIndex b) (buffer b),
                       writerIndex := size_add (writerIndex b) (length d)\<rparr>)"
    unfolding s Buffer_inv_def by (simp add: length_std_copy)
  have "drop (readerIndex b) (std_copy d (writerIndex b) (buffer b))
        = drop (readerIndex b) (take (writerIndex b) (buffer b)) @ d
          @ drop (writerIndex b + length d) (buffer b)"
    using i by (simp add: std_copy_def)
  moreover have "length (drop (readerIndex b) (take (writerIndex b) (buffer b))) = readable_bytes b"
    using i by (simp add: inv_readable [OF assms(1)] min_absorb2)
  moreover have "drop (readerIndex b) (take (writerIndex b) (buffer b))
                 = take (readable_bytes b) (drop (readerIndex b) (buffer b))"
    by (simp add: inv_readable [OF assms(1)] drop_take)
  ultimately show "take (readable_bytes b + length d)
           (drop (readerIndex b) (std_copy d (writerIndex b) (buffer b)))
         = take (readable_bytes b) (drop (readerIndex b) (buffer b)) @ d"
    by simp
qed

lemma append_thrown: "append_buf a b d = Thrown e b' \<Longrightarrow> b' = b"
  by (auto simp: append_buf_def dest: ensure_writable_thrown split: outcome.splits if_splits)

lemma append_returned:
  assumes "Buffer_inv b" and "append_buf a b d = Returned b'"
  shows "Buffer_inv b'"
    and "readable_bytes b' = readable_bytes b + length d"
    and "take (readable_bytes b') (peek b') = take (readable_bytes b) (peek b) @ d"
    and "\<exists>b1. ensure_writable_bytes a b (length d) = Returned b1 \<and>
              length (buffer b') = length (buffer b1)"
proof -
  from assms(2) obtain b1 where e: "ensure_writable_bytes a b (length d) = Returned b1"
    and room: "writerIndex b1 + length d \<le> length (buffer b1)"
    and b': "b' = b1\<lparr>buffer := std_copy d (writerIndex b1) (buffer b1),
                      writerIndex := size_add (writerIndex b1) (length d)\<rparr>"
    by (auto simp: append_buf_def split: outcome.splits if_splits)
  note r = ensure_writable_returned [OF assms(1) e room]
  note w = bytes_written [OF r(1) room]
  from w(1) show inv': "Buffer_inv b'" unfolding b' .
  from inv_bounds(2) [OF r(1)]
  show n: "readable_bytes b' = readable_bytes b + length d"
    unfolding inv_readable [OF inv'] r(2) [symmetric] inv_readable [OF r(1)]
    unfolding b' by (simp add: w(2))
  have "take (readable_bytes b') (peek b')
        = take (readable_bytes b1 + length d)
            (drop (readerIndex b1) (std_copy d (writerIndex b1) (buffer b1)))"
    unfolding n r(2) unfolding b' peek_def by simp
  also have "\<dots> = take (readable_bytes b1) (drop (readerIndex b1) (buffer b1)) @ d"
    by (rule w(3))
  finally show "take (readable_bytes b') (peek b') = take (readable_bytes b) (peek b) @ d"
    using r(2,3) by (simp add: peek_def)
  from room have "length (buffer b') = length (buffer b1)"
    unfolding b' by (simp add: length_std_copy)
  with e show "\<exists>b1. ensure_writable_bytes a b (length d) = Returned b1 \<and>
              length (buffer b') = length (buffer b1)"
    by blast
qed

lemma append_defined:
  assumes "Buffer_inv b" and "length d \<le> vector_max_size"
  shows "append_buf a b d \<noteq> Undefined"
proof -
  note i = inv_bounds [OF assms(1)]
  from i assms(2) max_size_bounds(1) have nw: "writerIndex b + length d \<le> SIZE_MAX"
    by simp
  show ?thesis
  proof (cases "ensure_writable_bytes a b (length d)")
    case (Returned b1)
    from ensure_writable_room [OF assms(1) Returned nw] Returned show ?thesis
      by (simp add: append_buf_def)
  next
    case (Thrown e b')
    then show ?thesis by (simp add: append_buf_def)
  next
    case Undefined
    with ensure_writable_defined [OF assms(1), of a "length d"] show ?thesis by simp
  qed
qed

lemma append_inv:
  assumes "Buffer_inv b" and "length d \<le> vector_max_size"
  shows "\<exists>b'. object_after id (append_buf a b d) = Some b' \<and> Buffer_inv b'"
proof (cases "append_buf a b d")
  case (Returned b')
  with append_returned(1) [OF assms(1) Returned] show ?thesis by simp
next
  case (Thrown e b')
  with append_thrown [OF Thrown] assms(1) show ?thesis by simp
next
  case Undefined
  with append_defined [OF assms, of a] show ?thesis by simp
qed

lemma bytes_filled_inv:
  assumes "Buffer_inv b" and "length d \<le> writable_bytes b"
  shows "Buffer_inv (b\<lparr>buffer := std_copy d (writerIndex b) (buffer b),
                       writerIndex := length (buffer b)\<rparr>)"
    and "length (std_copy d (writerIndex b) (buffer b)) = length (buffer b)"
proof -
  note i = inv_bounds [OF assms(1)]
  from assms i have "writerIndex b + length d \<le> length (buffer b)"
    by (simp add: inv_writable [OF assms(1)])
  then show l: "length (std_copy d (writerIndex b) (buffer b)) = length (buffer b)"
    by (rule length_std_copy)
  with i show "Buffer_inv (b\<lparr>buffer := std_copy d (writerIndex b) (buffer b),
                       writerIndex := length (buffer b)\<rparr>)"
    by (simp add: Buffer_inv_def)
qed

lemma iov_capacity_bound:
  "length (take (iov_capacity b) delivered) - writable_bytes b \<le> extrabuf_size"
  unfolding iov_capacity_def Let_def by (auto simp: min_def)

lemma read_fd_error:
  "writerIndex b \<le> length (buffer b) \<Longrightarrow> read_fd a b (ReadvError e) = Returned (- 1, Some e, b)"
  by (simp add: read_fd_def)

lemma read_fd_fits:
  assumes "writerIndex b \<le> length (buffer b)"
    and "d = take (iov_capacity b) delivered" and "length d \<le> writable_bytes b"
  shows "read_fd a b (ReadvBytes delivered) =
           Returned (int (length d), None,
            b\<lparr>buffer := std_copy d (writerIndex b) (buffer b),
              writerIndex := size_add (writerIndex b) (length d)\<rparr>)"
  using assms(1,3) unfolding assms(2) read_fd_def Let_def by simp

lemma read_fd_overflow:
  assumes "writerIndex b \<le> length (buffer b)"
    and "d = take (iov_capacity b) delivered" and "\<not> length d \<le> writable_bytes b"
  shows "read_fd a b (ReadvBytes delivered) =
           (case append_buf a
              (b\<lparr>buffer := std_copy (take (writable_bytes b) d) (writerIndex b) (buffer b),
                 writerIndex := length (buffer b)\<rparr>)
              (drop (writable_bytes b) d) of
              Returned b' \<Rightarrow> Returned (int (length d), None, b')
            | Thrown e b' \<Rightarrow> Thrown e b'
            | Undefined \<Rightarrow> Undefined)"
  using assms(1,3) unfolding assms(2) read_fd_def Let_def by simp

lemma read_fd_inv:
  assumes "Buffer_inv b"
  shows "\<exists>b'. object_after (\<lambda>x. snd (snd x)) (read_fd a b r) = Some b' \<and> Buffer_inv b'"
proof (cases r)
  case (ReadvError e)
  with assms inv_bounds(3) [OF assms] show ?thesis by (simp add: read_fd_error)
next
  case (ReadvBytes delivered)
  note i = inv_bounds [OF assms]
  define d where "d = take (iov_capacity b) delivered"
  show ?thesis
  proof (cases "length d \<le> writable_bytes b")
    case True
    with i have "writerIndex b + length d \<le> length (buffer b)"
      by (simp add: inv_writable [OF assms])
    from bytes_written(1) [OF assms this] show ?thesis
      unfolding ReadvBytes read_fd_fits [OF i(3) d_def True] by simp
  next
    case False
    define b2 where "b2 = b\<lparr>buffer := std_copy (take (writable_bytes b) d)
                                          (writerIndex b) (buffer b),
                               writerIndex := length (buffer b)\<rparr>"
    have "length (take (writable_bytes b) d) \<le> writable_bytes b" by simp
    from bytes_filled_inv(1) [OF assms this] have inv2: "Buffer_inv b2"
      unfolding b2_def .
    have "length (drop (writable_bytes b) d) \<le> extrabuf_size"
      unfolding d_def using iov_capacity_bound [of b delivered] by simp
    with max_size_bounds have "length (drop (writable_bytes b) d) \<le> vector_max_size"
      by (simp add: extrabuf_size_def vector_max_size_def)
    from append_inv [OF inv2 this, of a] obtain b' where
      b': "object_after id (append_buf a b2 (drop (writable_bytes b) d)) = Some b'"
      "Buffer_inv b'" by blast
    then show ?thesis
      unfolding ReadvBytes read_fd_overflow [OF i(3) d_def False] b2_def [symmetric]
      by (cases "append_buf a b2 (drop (writable_bytes b) d)") simp_all
  qed
qed

lemma retrieve_as_string_inv:
  assumes "Buffer_inv b"
  shows "\<exists>b'. object_after snd (retrieve_as_string a b len) = Some b' \<and> Buffer_inv b' \<and>
              length (buffer b') = length (buffer b)"
proof -
  note i = inv_bounds [OF assms]
  from i have "readerIndex b + min len (readable_bytes b) \<le> length (buffer b)"
    by (simp add: inv_readable [OF assms])
  moreover have "length (buffer (retrieve b k)) = length (buffer b)" for k
    by (simp add: retrieve_def retrieve_all_def)
  ultimately show ?thesis
    using assms by (cases a) (simp_all add: retrieve_as_string_def Let_def retrieve_inv)
qed

lemma apply_op_inv:
  assumes "Buffer_inv b" and "no_wrap b x"
  shows "\<exists>b'. apply_op a b x = Some b' \<and> Buffer_inv b'"
proof (cases x)
  case (OpAppend data)
  with assms show ?thesis by (simp add: append_inv)
next
  case (OpRetrieve len)
  with assms show ?thesis by (simp add: retrieve_inv)
next
  case OpRetrieveAll
  with assms show ?thesis by (simp add: retrieve_all_inv)
next
  case (OpRetrieveAsString len)
  with retrieve_as_string_inv [OF assms(1), of a len] show ?thesis by auto
next
  case OpRetrieveAllAsString
  with retrieve_as_string_inv [OF assms(1), of a "readable_bytes b"] show ?thesis
    by (auto simp: retrieve_all_as_string_def)
next
  case (OpEnsureWritable len)
  with assms(2) have "no_wrap b (OpEnsureWritable len)" by simp
  from ensure_writable_bytes_inv [OF assms(1) this, of a] assms(1) OpEnsureWritable
  show ?thesis
    by (cases "ensure_writable_bytes a b len") simp_all
next
  case (OpReadFd r)
  with read_fd_inv [OF assms(1), of a r] show ?thesis by simp
qed

lemma run_ops_inv:
  "Buffer_inv b \<Longrightarrow> all_no_wrap b calls \<Longrightarrow> \<exists>b'. run_ops b calls = Some b' \<and> Buffer_inv b'"
proof (induction calls arbitrary: b)
  case Nil
  then show ?case by simp
next
  case (Cons c calls)
  obtain a x where c: "c = (a, x)" by (cases c)
  from Cons.prems c have nw: "no_wrap b x" by simp
  from apply_op_inv [OF Cons.prems(1) nw, of a] obtain b1 where
    b1: "apply_op a b x = Some b1" "Buffer_inv b1" by blast
  with Cons.prems c have "all_no_wrap b1 calls" by simp
  from Cons.IH [OF b1(2) this] b1(1) c show ?case by simp
qed

subsection \<open>Buffer: requests that compaction can serve\<close>

lemma ensure_writable_same_capacity:
  assumes "Buffer_inv b"
    and "len \<le> writable_bytes b + prependable_bytes b - kCheapPrepend"
  shows "\<exists>b1. ensure_writable_bytes a b len = Returned b1 \<and> Buffer_inv b1 \<and>
              length (buffer b1) = length (buffer b) \<and> len \<le> writable_bytes b1"
proof (cases "writable_bytes b < len")
  case True
  with assms(2) have f: "len + kCheapPrepend \<le> writable_bytes b + prependable_bytes b"
    by linarith
  note c = compacted_facts [OF assms(1)]
  from c(6) f have "len \<le> writable_bytes (compacted b)" by simp
  with ensure_writable_compacts [OF assms(1) True f, of a] c(1,2) show ?thesis
    by simp
next
  case False
  with assms(1) show ?thesis by (simp add: ensure_writable_enough)
qed

lemma append_same_capacity:
  assumes "Buffer_inv b"
    and "length d \<le> writable_bytes b + prependable_bytes b - kCheapPrepend"
  shows "\<exists>b'. append_buf a b d = Returned b' \<and> Buffer_inv b' \<and>
              length (buffer b') = length (buffer b)"
proof -
  from ensure_writable_same_capacity [OF assms, of a] obtain b1 where
    e: "ensure_writable_bytes a b (length d) = Returned b1" and inv1: "Buffer_inv b1"
    and l: "length (buffer b1) = length (buffer b)" and r: "length d \<le> writable_bytes b1"
    by blast
  from r inv_bounds(3) [OF inv1] have room: "writerIndex b1 + length d \<le> length (buffer b1)"
    by (simp add: inv_writable [OF inv1])
  with e obtain b' where a: "append_buf a b d = Returned b'"
    by (simp add: append_buf_def)
  from append_returned(1,4) [OF assms(1) a] e l a show ?thesis by auto
qed

lemma read_fd_same_capacity:
  assumes "Buffer_inv b" and "within_compaction b (OpReadFd r)"
  shows "\<exists>b'. object_after (\<lambda>x. snd (snd x)) (read_fd a b r) = Some b' \<and> Buffer_inv b' \<and>
              length (buffer b') = length (buffer b)"
proof (cases r)
  case (ReadvError e)
  with assms(1) inv_bounds(3) [OF assms(1)] show ?thesis by (simp add: read_fd_error)
next
  case (ReadvBytes delivered)
  note i = inv_bounds [OF assms(1)]
  define d where "d = take (iov_capacity b) delivered"
  show ?thesis
  proof (cases "length d \<le> writable_bytes b")
    case True
    with i have room: "writerIndex b + length d \<le> length (buffer b)"
      by (simp add: inv_writable [OF assms(1)])
    from bytes_written(1) [OF assms(1) room] room show ?thesis
      unfolding ReadvBytes read_fd_fits [OF i(3) d_def True] by (simp add: length_std_copy)
  next
    case False
    define b2 where "b2 = b\<lparr>buffer := std_copy (take (writable_bytes b) d)
                                          (writerIndex b) (buffer b),
                               writerIndex := length (buffer b)\<rparr>"
    have "length (take (writable_bytes b) d) \<le> writable_bytes b" by simp
    note f = bytes_filled_inv [OF assms(1) this]
    from f(1) have inv2: "Buffer_inv b2" unfolding b2_def .
    from f(2) have cap2: "length (buffer b2) = length (buffer b)"
      unfolding b2_def by simp
    then have w2: "writable_bytes b2 = 0" and p2: "prependable_bytes b2 = prependable_bytes b"
      unfolding inv_writable [OF inv2] unfolding b2_def
      by (simp_all add: prependable_bytes_def)
    from assms(2) False
    have "length d - writable_bytes b \<le> 0 + prependable_bytes b - kCheapPrepend"
      unfolding ReadvBytes d_def by (simp add: Let_def)
    then have "length (drop (writable_bytes b) d)
               \<le> writable_bytes b2 + prependable_bytes b2 - kCheapPrepend"
      by (simp add: w2 p2)
    from append_same_capacity [OF inv2 this, of a] obtain b' where
      "append_buf a b2 (drop (writable_bytes b) d) = Returned b'" "Buffer_inv b'"
      "length (buffer b') = length (buffer b2)" by blast
    with cap2 show ?thesis
      unfolding ReadvBytes read_fd_overflow [OF i(3) d_def False] b2_def [symmetric] by simp
  qed
qed

lemma apply_op_same_capacity:
  assumes "Buffer_inv b" and "within_compaction b x"
  shows "\<exists>b'. apply_op a b x = Some b' \<and> Buffer_inv b' \<and>
              length (buffer b') = length (buffer b)"
proof (cases x)
  case (OpAppend data)
  with assms append_same_capacity [OF assms(1), of data a] show ?thesis by auto
next
  case (OpRetrieve len)
  with assms(1) show ?thesis by (simp add: retrieve_inv) (simp add: retrieve_def retrieve_all_def)
next
  case OpRetrieveAll
  with assms(1) show ?thesis by (simp add: retrieve_all_inv) (simp add: retrieve_all_def)
next
  case (OpRetrieveAsString len)
  with retrieve_as_string_inv [OF assms(1), of a len] show ?thesis by simp
next
  case OpRetrieveAllAsString
  with retrieve_as_string_inv [OF assms(1), of a "readable_bytes b"] show ?thesis
    by (simp add: retrieve_all_as_string_def)
next
  case (OpEnsureWritable len)
  with assms ensure_writable_same_capacity [OF assms(1), of len a] show ?thesis by auto
next
  case (OpReadFd r)
  with assms read_fd_same_capacity [OF assms(1), of r a] show ?thesis by simp
qed

lemma run_ops_same_capacity:
  "Buffer_inv b \<Longrightarrow> all_within_compaction b calls \<Longrightarrow>
   \<exists>b'. run_ops b calls = Some b' \<and> length (buffer b') = length (buffer b)"
proof (induction calls arbitrary: b)
  case Nil
  then show ?case by simp
next
  case (Cons c calls)
  obtain a x where c: "c = (a, x)" by (cases c)
  from Cons.prems c have wc: "within_compaction b x" by simp
  from apply_op_same_capacity [OF Cons.prems(1) wc, of a] obtain b1 where
    b1: "apply_op a b x = Some b1" "Buffer_inv b1" "length (buffer b1) = length (buffer b)"
    by blast
  with Cons.prems c have "all_within_compaction b1 calls" by simp
  from Cons.IH [OF b1(2) this] b1(1,3) c show ?case by simp
qed

lemma all_within_compaction_take:
  "all_within_compaction b calls \<Longrightarrow> all_within_compaction b (take k calls)"
proof (induction calls arbitrary: b k)
  case Nil
  then show ?case by simp
next
  case (Cons c calls)
  obtain a x where c: "c = (a, x)" by (cases c)
  show ?case
  proof (cases k)
    case 0
    then show ?thesis by simp
  next
    case (Suc j)
    with Cons c show ?thesis
      by (auto split: option.splits)
  qed
qed

text \<open>
  The layout on the runs in which no sum wraps around. Take a buffer that the
  constructor has built from an initial size of at most \<open>SIZE_MAX - kCheapPrepend\<close>,
  and any sequence of the operations on it, with any answers of the allocator, in
  which the data appended are arrays in memory and no \<open>ensure_writable_bytes(len)\<close> is
  asked for a \<open>len\<close> with \<open>SIZE_MAX - writer < len \<le> SIZE_MAX - kCheapPrepend\<close>. Then
  every call has defined behaviour, and the buffer reached (whether the calls returned
  or threw) satisfies readable + prependable + writable = capacity and
  reader \<le> writer \<le> capacity.
\<close>

lemma Buffer_balance:
  assumes "Buffer_new a n = Inr b0" and "n \<le> SIZE_MAX - kCheapPrepend"
    and "all_no_wrap b0 calls"
  shows "\<exists>b. run_ops b0 calls = Some b \<and>
             readable_bytes b + prependable_bytes b + writable_bytes b = length (buffer b) \<and>
             readerIndex b \<le> writerIndex b \<and> writerIndex b \<le> length (buffer b)"
proof -
  from Buffer_new_inv(2) [OF assms(1,2)] have "Buffer_inv b0" .
  from run_ops_inv [OF this assms(3)] obtain b where
    b: "run_ops b0 calls = Some b" "Buffer_inv b" by blast
  note i = inv_bounds [OF b(2)]
  from i have "readable_bytes b + prependable_bytes b + writable_bytes b = length (buffer b)"
    by (simp add: inv_readable [OF b(2)] inv_writable [OF b(2)] prependable_bytes_def)
  with b(1) i show ?thesis by simp
qed

text \<open>
  What \<open>ensure_writable_bytes(len)\<close> does on such a buffer when writable < len and
  no sum wraps around. If writable + prependable \<ge> len + kCheapPrepend the call
  compacts in place: it returns, the capacity is unchanged, the read cursor is at
  kCheapPrepend and the readable bytes are the same. Otherwise, if writer + len is at
  most the \<open>max_size()\<close> of the vector, the call resizes the vector to exactly
  writer + len, keeping the old contents and the cursors, when the allocation
  succeeds, and throws what the allocation throws, leaving the buffer as it was, when
  it does not; if writer + len is larger, up to \<open>SIZE_MAX\<close>, it throws
  \<open>std::length_error\<close> and leaves the buffer as it was. Along any sequence of
  operations each of which asks for no more writable space than
  writable + prependable - kCheapPrepend, the capacity stays what it was.
\<close>

lemma ensure_writable_policy:
  assumes "Buffer_new a0 n = Inr b0" and "n \<le> SIZE_MAX - kCheapPrepend"
    and "all_no_wrap b0 pre" and "run_ops b0 pre = Some b"
  shows "(writable_bytes b < len \<and>
            len + kCheapPrepend \<le> writable_bytes b + prependable_bytes b \<longrightarrow>
          (\<exists>b'. ensure_writable_bytes a b len = Returned b' \<and>
             length (buffer b') = length (buffer b) \<and>
             readerIndex b' = kCheapPrepend \<and>
             readable_bytes b' = readable_bytes b \<and>
             take (readable_bytes b) (peek b') = take (readable_bytes b) (peek b)))
       \<and> (writable_bytes b < len \<and>
            writable_bytes b + prependable_bytes b < len + kCheapPrepend \<and>
            writerIndex b + len \<le> vector_max_size \<longrightarrow>
          (a = None \<longrightarrow>
             (\<exists>b'. ensure_writable_bytes a b len = Returned b' \<and>
                length (buffer b') = writerIndex b + len \<and>
                readerIndex b' = readerIndex b \<and>
                writerIndex b' = writerIndex b \<and>
                take (length (buffer b)) (buffer b') = buffer b)) \<and>
          (\<forall>e. a = Some e \<longrightarrow> ensure_writable_bytes a b len = Thrown e b))
       \<and> (writable_bytes b < len \<and>
            writable_bytes b + prependable_bytes b < len + kCheapPrepend \<and>
            vector_max_size < writerIndex b + len \<and> writerIndex b + len \<le> SIZE_MAX \<longrightarrow>
          ensure_writable_bytes a b len = Thrown length_error b)
       \<and> (all_within_compaction b calls \<longrightarrow>
          (\<forall>k. \<exists>b'. run_ops b (take k calls) = Some b' \<and>
                     length (buffer b') = length (buffer b)))"
proof -
  from Buffer_new_inv(2) [OF assms(1,2)] have "Buffer_inv b0" .
  from run_ops_inv [OF this assms(3)] assms(4) have inv: "Buffer_inv b" by simp
  note i = inv_bounds [OF inv]
  have p1: "\<exists>b'. ensure_writable_bytes a b len = Returned b' \<and>
             length (buffer b') = length (buffer b) \<and>
             readerIndex b' = kCheapPrepend \<and>
             readable_bytes b' = readable_bytes b \<and>
             take (readable_bytes b) (peek b') = take (readable_bytes b) (peek b)"
    if "writable_bytes b < len \<and> len + kCheapPrepend \<le> writable_bytes b + prependable_bytes b"
    using ensure_writable_compacts [OF inv, of len a] compacted_facts(2-5) [OF inv] that
    by simp
  have z: "ensure_writable_bytes a b len =
           (case vector_alloc a (writerIndex b + len) of
              Some e \<Rightarrow> Thrown e b
            | None \<Rightarrow> Returned (grown (writerIndex b + len) b))"
      "length (buffer b) \<le> writerIndex b + len"
    if "writable_bytes b < len"
      "writable_bytes b + prependable_bytes b < len + kCheapPrepend"
      "writerIndex b + len \<le> SIZE_MAX"
    using ensure_writable_resizes [OF inv that] by simp_all
  have p2: "(a = None \<longrightarrow>
             (\<exists>b'. ensure_writable_bytes a b len = Returned b' \<and>
                length (buffer b') = writerIndex b + len \<and>
                readerIndex b' = readerIndex b \<and>
                writerIndex b' = writerIndex b \<and>
                take (length (buffer b)) (buffer b') = buffer b)) \<and>
          (\<forall>e. a = Some e \<longrightarrow> ensure_writable_bytes a b len = Thrown e b)"
    if h: "writable_bytes b < len \<and>
            writable_bytes b + prependable_bytes b < len + kCheapPrepend \<and>
            writerIndex b + len \<le> vector_max_size"
  proof -
    from h max_size_bounds(1) have nw: "writerIndex b + len \<le> SIZE_MAX" by simp
    from h have va: "vector_alloc a (writerIndex b + len) = a"
      by (simp add: vector_alloc_def)
    from h nw have e: "ensure_writable_bytes a b len =
           (case a of Some e \<Rightarrow> Thrown e b
            | None \<Rightarrow> Returned (grown (writerIndex b + len) b))"
      and le: "length (buffer b) \<le> writerIndex b + len"
      using z va by simp_all
    from h have "writerIndex b + len \<le> vector_max_size" by simp
    note g = grown_facts [OF inv le this]
    show ?thesis
    proof (cases a)
      case None
      with e have "ensure_writable_bytes a b len = Returned (grown (writerIndex b + len) b)"
        by simp
      with g(2-5) None show ?thesis by simp
    next
      case (Some e')
      with e show ?thesis by simp
    qed
  qed
  have p3: "ensure_writable_bytes a b len = Thrown length_error b"
    if h: "writable_bytes b < len \<and>
            writable_bytes b + prependable_bytes b < len + kCheapPrepend \<and>
            vector_max_size < writerIndex b + len \<and> writerIndex b + len \<le> SIZE_MAX"
    using z(1) h by (simp add: vector_alloc_def)
  have p4: "\<exists>b'. run_ops b (take k calls) = Some b' \<and> length (buffer b') = length (buffer b)"
    if "all_within_compaction b calls" for k
    using run_ops_same_capacity [OF inv all_within_compaction_take [OF that]] .
  from p1 p2 p3 p4 show ?thesis by blast
qed

subsection \<open>Buffer: contents\<close>

lemma readable_init: "readable_bytes (Buffer_init n) = 0"
  by (simp add: readable_bytes_def Buffer_init_def size_sub_def kCheapPrepend_def)

lemma writer_init: "writerIndex (Buffer_init n) = kCheapPrepend"
  by (simp add: Buffer_init_def)

lemma retrieve_content:
  assumes "Buffer_inv b" and "n < readable_bytes b"
  shows "readable_bytes (retrieve b n) = readable_bytes b - n"
    and "take (readable_bytes (retrieve b n)) (peek (retrieve b n))
         = drop n (take (readable_bytes b) (peek b))"
proof -
  note i = inv_bounds [OF assms(1)]
  from assms(2) have l: "readerIndex b + n < writerIndex b"
    by (simp add: inv_readable [OF assms(1)])
  with i have s: "size_add (readerIndex b) n = readerIndex b + n"
    by (intro size_add_eq) simp
  from assms(2) have r: "retrieve b n = b\<lparr>readerIndex := readerIndex b + n\<rparr>"
    by (simp add: retrieve_def s)
  from retrieve_inv [OF assms(1), of n] have inv': "Buffer_inv (retrieve b n)" .
  show n: "readable_bytes (retrieve b n) = readable_bytes b - n"
    unfolding inv_readable [OF inv'] inv_readable [OF assms(1)] unfolding r by simp
  show "take (readable_bytes (retrieve b n)) (peek (retrieve b n))
         = drop n (take (readable_bytes b) (peek b))"
    unfolding n unfolding r by (simp add: peek_def drop_take add.commute)
qed

lemma retrieve_drained:
  assumes "\<not> n < readable_bytes b"
  shows "readable_bytes (retrieve b n) = 0"
  using assms
  by (simp add: retrieve_def retrieve_all_def readable_bytes_def size_sub_def kCheapPrepend_def)

lemma append_None_returns:
  assumes "Buffer_inv b" and "writerIndex b + length d \<le> vector_max_size"
  shows "append_buf None b d = Returned (appended b d)"
proof -
  note i = inv_bounds [OF assms(1)]
  from assms(2) have ld: "length d \<le> vector_max_size" by simp
  from assms(2) max_size_bounds(1) have nw: "writerIndex b + length d \<le> SIZE_MAX" by simp
  have "ensure_writable_bytes None b (length d) \<noteq> Thrown e b'" for e b'
  proof (cases "writable_bytes b < length d \<and>
                writable_bytes b + prependable_bytes b < length d + kCheapPrepend")
    case True
    then have "ensure_writable_bytes None b (length d) =
           (case vector_alloc None (writerIndex b + length d) of
              Some e \<Rightarrow> Thrown e b
            | None \<Rightarrow> Returned (grown (writerIndex b + length d) b))"
      using ensure_writable_resizes(1) [OF assms(1) _ _ nw, of None] by simp
    with assms(2) show ?thesis by (simp add: vector_alloc_def)
  next
    case False
    then consider "\<not> writable_bytes b < length d"
      | "writable_bytes b < length d"
        "length d + kCheapPrepend \<le> writable_bytes b + prependable_bytes b"
      by linarith
    then show ?thesis
    proof cases
      case 1
      then show ?thesis by (simp add: ensure_writable_enough)
    next
      case 2
      then show ?thesis by (simp add: ensure_writable_compacts [OF assms(1)])
    qed
  qed
  then have nt: "append_buf None b d \<noteq> Thrown e b'" for e b'
    by (auto simp: append_buf_def split: outcome.splits if_splits)
  show ?thesis
  proof (cases "append_buf None b d")
    case (Returned b')
    then show ?thesis by (simp add: appended_def)
  next
    case (Thrown e b')
    with nt [of e b'] show ?thesis by simp
  next
    case Undefined
    with append_defined [OF assms(1) ld, of None] show ?thesis by simp
  qed
qed

lemma appended_facts:
  assumes "Buffer_inv b" and "writerIndex b + length d \<le> vector_max_size"
  shows "Buffer_inv (appended b d)"
    and "readable_bytes (appended b d) = readable_bytes b + length d"
    and "take (readable_bytes (appended b d)) (peek (appended b d))
         = take (readable_bytes b) (peek b) @ d"
  using append_returned(1-3) [OF assms(1) append_None_returns [OF assms]] by simp_all

subsection \<open>Buffer: sums that wrap around\<close>

lemma eight_zeros:
  "replicate 8 (0::byte) = [0, 0, 0, 0, 0, 0, 0, 0]"
  "replicate 2 (0::byte) = [0, 0]"
  by (simp_all add: numeral_eq_Suc)

lemmas buf_eval = Buffer_new_def Buffer_init_def vector_alloc_def vector_resize_def
  vector_max_size_def SIZE_MAX_def size_add_def size_sub_def kCheapPrepend_def
  readable_bytes_def writable_bytes_def prependable_bytes_def peek_def retrieve_def
  retrieve_all_def retrieve_as_string_def retrieve_all_as_string_def std_copy_def
  make_space_def ensure_writable_bytes_def append_buf_def read_fd_def iov_capacity_def
  extrabuf_size_def Let_def eight_zeros

text \<open>
  C5 fails on the code. The comment at the head of Buffer.h gives the layout
  \<open>0 <= readerIndex <= writerIndex <= size\<close>, but the class forms its \<open>size_t\<close> sums
  without a check. \<open>Buffer(SIZE_MAX)\<close> builds a vector of \<open>8 + SIZE_MAX\<close>, that is 7,
  bytes with both cursors at 8, and an \<open>append\<close> to it writes outside the vector. On
  a buffer built as \<open>Buffer(4)\<close> that holds two bytes, \<open>ensure_writable_bytes(SIZE_MAX - 8)\<close>
  calls \<open>resize(10 + (SIZE_MAX - 8))\<close>, that is \<open>resize(1)\<close>, and leaves the write cursor
  at 10 in a vector of one byte.
\<close>

theorem Buffer_layout_wraps_around:
  "Buffer_new None SIZE_MAX = Inr (Buffer_init SIZE_MAX)
   \<and> length (buffer (Buffer_init SIZE_MAX)) = 7
   \<and> readerIndex (Buffer_init SIZE_MAX) = 8
   \<and> writerIndex (Buffer_init SIZE_MAX) = 8
   \<and> append_buf None (Buffer_init SIZE_MAX) [1] = Undefined
   \<and> Buffer_new None 4 = Inr (Buffer_init 4)
   \<and> run_ops (Buffer_init 4) [(None, OpAppend [1, 2])]
       = Some \<lparr>buffer = [0, 0, 0, 0, 0, 0, 0, 0, 1, 2, 0, 0], readerIndex = 8, writerIndex = 10\<rparr>
   \<and> run_ops (Buffer_init 4) [(None, OpAppend [1, 2]), (None, OpEnsureWritable (SIZE_MAX - 8))]
       = Some \<lparr>buffer = [0], readerIndex = 8, writerIndex = 10\<rparr>"
  by (simp add: buf_eval)

text \<open>
  C6 fails on the code. \<open>make_space\<close> tests
  \<open>writable_bytes() + prependable_bytes() < len + kCheapPrepend\<close> and calls
  \<open>resize(writerIndex_ + len)\<close> with \<open>size_t\<close> sums that it does not check. On a
  buffer of capacity 12 with the cursors at 11 and 12 (writable 0, prependable 11),
  \<open>ensure_writable_bytes(SIZE_MAX - 3)\<close> finds \<open>len + kCheapPrepend\<close> to be 4 and compacts:
  the capacity stays 12 and 3 bytes are writable, where the request exceeds what
  compaction can free and the comment of the method promises at least \<open>len\<close> writable
  bytes. On a buffer of capacity 12 with the write cursor at 10,
  \<open>ensure_writable_bytes(SIZE_MAX - 8)\<close> takes the other branch and resizes the vector
  to 1 byte, not to writer + len.
\<close>

theorem ensure_writable_wraps_around:
  "run_ops (Buffer_init 4) [(None, OpAppend [1, 2, 3, 4]), (None, OpRetrieve 3)]
       = Some \<lparr>buffer = [0, 0, 0, 0, 0, 0, 0, 0, 1, 2, 3, 4], readerIndex = 11, writerIndex = 12\<rparr>
   \<and> writable_bytes
         \<lparr>buffer = [0, 0, 0, 0, 0, 0, 0, 0, 1, 2, 3, 4], readerIndex = 11, writerIndex = 12\<rparr> = 0
   \<and> prependable_bytes
         \<lparr>buffer = [0, 0, 0, 0, 0, 0, 0, 0, 1, 2, 3, 4], readerIndex = 11, writerIndex = 12\<rparr> = 11
   \<and> 0 + 11 < (SIZE_MAX - 3) + kCheapPrepend
   \<and> ensure_writable_bytes None
         \<lparr>buffer = [0, 0, 0, 0, 0, 0, 0, 0, 1, 2, 3, 4], readerIndex = 11, writerIndex = 12\<rparr>
         (SIZE_MAX - 3)
       = Returned \<lparr>buffer = [0, 0, 0, 0, 0, 0, 0, 0, 4, 2, 3, 4], readerIndex = 8, writerIndex = 9\<rparr>
   \<and> writable_bytes
         \<lparr>buffer = [0, 0, 0, 0, 0, 0, 0, 0, 4, 2, 3, 4], readerIndex = 8, writerIndex = 9\<rparr> = 3
   \<and> writable_bytes
         \<lparr>buffer = [0, 0, 0, 0, 0, 0, 0, 0, 1, 2, 0, 0], readerIndex = 8, writerIndex = 10\<rparr> = 2
   \<and> 2 + 8 < (SIZE_MAX - 8) + kCheapPrepend
   \<and> ensure_writable_bytes None
         \<lparr>buffer = [0, 0, 0, 0, 0, 0, 0, 0, 1, 2, 0, 0], readerIndex = 8, writerIndex = 10\<rparr>
         (SIZE_MAX - 8)
       = Returned \<lparr>buffer = [0], readerIndex = 8, writerIndex = 10\<rparr>"
  by (simp add: buf_eval)

subsection \<open>Channel: the dispatch order\<close>

lemma test_EPOLLIN: "(m AND EPOLLIN \<noteq> 0) = bit (m :: 32 word) 0"
  by (simp add: EPOLLIN_def and_one_eq bit_0 mod_2_eq_odd)

lemma test_bit_32:
  "n < 32 \<Longrightarrow> ((m :: 32 word) AND push_bit n 1 \<noteq> 0) = bit m n"
  by (simp add: bit_iff_and_push_bit_not_eq_0)

lemma test_EPOLLPRI: "(m AND EPOLLPRI \<noteq> 0) = bit (m :: 32 word) 1"
  using test_bit_32 [of 1 m] by (simp add: EPOLLPRI_def)

lemma test_EPOLLOUT: "(m AND EPOLLOUT \<noteq> 0) = bit (m :: 32 word) 2"
  using test_bit_32 [of 2 m] by (simp add: EPOLLOUT_def)

lemma test_EPOLLERR: "(m AND EPOLLERR \<noteq> 0) = bit (m :: 32 word) 3"
  using test_bit_32 [of 3 m] by (simp add: EPOLLERR_def)

lemma test_EPOLLHUP: "(m AND EPOLLHUP \<noteq> 0) = bit (m :: 32 word) 4"
  using test_bit_32 [of 4 m] by (simp add: EPOLLHUP_def)

lemma test_read_mask:
  "(m AND (EPOLLIN OR EPOLLPRI) \<noteq> 0) = (bit (m :: 32 word) 0 \<or> bit m 1)"
proof -
  have "m AND (EPOLLIN OR EPOLLPRI) = (m AND EPOLLIN) OR (m AND EPOLLPRI)"
    by (simp add: bit.conj_disj_distrib)
  then show ?thesis
    using test_EPOLLIN [of m] test_EPOLLPRI [of m] by (simp add: or_eq_0_iff)
qed

text \<open>
  C4. For every ready-event mask and every set of callbacks,
  \<open>handle_event_with_guard\<close> runs the installed callbacks of exactly the kinds the
  specification lists, in its order: close (hang-up without readable), error, read
  with the receipt time (readable or priority-readable), write (writable). With four
  recording callbacks the record is that list.
\<close>

theorem dispatch_in_spec_order:
  "handle_event_with_guard ch cbs t w
     = foldl (invoke cbs) w (spec_dispatch_order (revents ch) t)
   \<and> handle_event_with_guard ch recording_callbacks t [] = spec_dispatch_order (revents ch) t"
proof
  show "handle_event_with_guard ch cbs t w
     = foldl (invoke cbs) w (spec_dispatch_order (revents ch) t)"
    unfolding handle_event_with_guard_def spec_dispatch_order_def Let_def
      test_EPOLLIN test_EPOLLHUP test_EPOLLERR test_EPOLLOUT test_read_mask
    by simp
  show "handle_event_with_guard ch recording_callbacks t [] = spec_dispatch_order (revents ch) t"
    unfolding handle_event_with_guard_def spec_dispatch_order_def Let_def
      test_EPOLLIN test_EPOLLHUP test_EPOLLERR test_EPOLLOUT test_read_mask
    by (simp add: recording_callbacks_def call0_def call1_def)
qed

subsection \<open>Poller: the channel-state tag\<close>

text \<open>
  C7 (as amended). \<open>update_channel\<close> on a New or Deleted channel issues ADD and sets the
  tag to Added, and inserts the channel into the map when it was New; on an Added
  channel it issues DEL and sets the tag to Deleted when the interest mask is empty,
  and issues MOD and leaves the tag otherwise. \<open>remove_channel\<close> on a channel whose
  descriptor is a key of the map erases that key, issues DEL if the tag was Added and
  sets the tag to New; on a channel whose descriptor is not a key it changes nothing.
\<close>

theorem poller_tag_transitions:
  "(index (heap s c) = kNew \<longrightarrow>
      update_channel c s =
        s\<lparr>heap := (heap s)(c := (heap s c)\<lparr>index := kAdded\<rparr>),
          channels := (channels s)(fd (heap s c) \<mapsto> c),
          epoll_calls := epoll_calls s @
            [\<lparr>ctl_op = EPOLL_CTL_ADD, ctl_fd = fd (heap s c),
              ctl_events = events (heap s c), ctl_ptr = c\<rparr>]\<rparr>)
   \<and> (index (heap s c) = kDeleted \<longrightarrow>
      update_channel c s =
        s\<lparr>heap := (heap s)(c := (heap s c)\<lparr>index := kAdded\<rparr>),
          epoll_calls := epoll_calls s @
            [\<lparr>ctl_op = EPOLL_CTL_ADD, ctl_fd = fd (heap s c),
              ctl_events = events (heap s c), ctl_ptr = c\<rparr>]\<rparr>)
   \<and> (index (heap s c) = kAdded \<and> events (heap s c) = 0 \<longrightarrow>
      update_channel c s =
        s\<lparr>heap := (heap s)(c := (heap s c)\<lparr>index := kDeleted\<rparr>),
          epoll_calls := epoll_calls s @
            [\<lparr>ctl_op = EPOLL_CTL_DEL, ctl_fd = fd (heap s c),
              ctl_events = events (heap s c), ctl_ptr = c\<rparr>]\<rparr>)
   \<and> (index (heap s c) = kAdded \<and> events (heap s c) \<noteq> 0 \<longrightarrow>
      update_channel c s =
        s\<lparr>epoll_calls := epoll_calls s @
            [\<lparr>ctl_op = EPOLL_CTL_MOD, ctl_fd = fd (heap s c),
              ctl_events = events (heap s c), ctl_ptr = c\<rparr>]\<rparr>)
   \<and> (channels s (fd (heap s c)) \<noteq> None \<longrightarrow>
      remove_channel c s =
        s\<lparr>heap := (heap s)(c := (heap s c)\<lparr>index := kNew\<rparr>),
          channels := (channels s)(fd (heap s c) := None),
          epoll_calls := epoll_calls s @
            (if index (heap s c) = kAdded
             then [\<lparr>ctl_op = EPOLL_CTL_DEL, ctl_fd = fd (heap s c),
                    ctl_events = events (heap s c), ctl_ptr = c\<rparr>]
             else [])\<rparr>)
   \<and> (channels s (fd (heap s c)) = None \<longrightarrow> remove_channel c s = s)"
  by (simp add: update_channel_def remove_channel_def update_def store_index_def set_index_def
      is_none_event_def KNoneEvent_def kNew_def kAdded_def kDeleted_def Let_def)

theorem poller_tag_transitions_witness:
  "index (heap two_channels 0) = kNew
   \<and> index (heap (update_channel 0 two_channels) 0) = kAdded
   \<and> channels (update_channel 0 two_channels) 3 = Some 0
   \<and> map ctl_op (epoll_calls (update_channel 0 two_channels)) = [EPOLL_CTL_ADD]
   \<and> index (heap first_registered 0) = kAdded \<and> events (heap first_registered 0) \<noteq> 0
   \<and> index (heap (update_channel 0 first_registered) 0) = kAdded
   \<and> map ctl_op (epoll_calls (update_channel 0 first_registered))
       = [EPOLL_CTL_ADD, EPOLL_CTL_MOD]
   \<and> index (heap first_uninterested 0) = kAdded \<and> events (heap first_uninterested 0) = 0
   \<and> index (heap (update_channel 0 first_uninterested) 0) = kDeleted
   \<and> channels (update_channel 0 first_uninterested) 3 = Some 0
   \<and> map ctl_op (epoll_calls (update_channel 0 first_uninterested))
       = [EPOLL_CTL_ADD, EPOLL_CTL_DEL]
   \<and> index (heap (update_channel 0 (update_channel 0 first_uninterested)) 0) = kAdded
   \<and> map ctl_op (epoll_calls (update_channel 0 (update_channel 0 first_uninterested)))
       = [EPOLL_CTL_ADD, EPOLL_CTL_DEL, EPOLL_CTL_ADD]
   \<and> channels first_registered (fd (heap first_registered 0)) \<noteq> None
   \<and> index (heap (remove_channel 0 first_registered) 0) = kNew
   \<and> channels (remove_channel 0 first_registered) 3 = None
   \<and> map ctl_op (epoll_calls (remove_channel 0 first_registered))
       = [EPOLL_CTL_ADD, EPOLL_CTL_DEL]
   \<and> channels two_channels (fd (heap two_channels 1)) = None
   \<and> remove_channel 1 two_channels = two_channels"
proof -
  have new: "index (heap two_channels 0) = kNew"
    "channels two_channels (fd (heap two_channels 1)) = None"
    by (simp_all add: two_channels_def Channel_new_def kNew_def)
  have reg: "first_registered =
      two_channels\<lparr>heap := (heap two_channels)(0 := (heap two_channels 0)\<lparr>index := kAdded\<rparr>),
          channels := (channels two_channels)(fd (heap two_channels 0) \<mapsto> 0),
          epoll_calls := epoll_calls two_channels @
            [\<lparr>ctl_op = EPOLL_CTL_ADD, ctl_fd = fd (heap two_channels 0),
              ctl_events = events (heap two_channels 0), ctl_ptr = 0\<rparr>]\<rparr>"
    unfolding first_registered_def
    using poller_tag_transitions [of two_channels 0] new by blast
  have added: "index (heap first_registered 0) = kAdded"
    "events (heap first_registered 0) \<noteq> 0"
    "channels first_registered (fd (heap first_registered 0)) \<noteq> None"
    "index (heap first_uninterested 0) = kAdded" "events (heap first_uninterested 0) = 0"
    unfolding first_uninterested_def reg
    by (simp_all add: two_channels_def Channel_new_def KReadEvent_def KNoneEvent_def
        EPOLLIN_def EPOLLPRI_def)
  have del: "index (heap (update_channel 0 first_uninterested) 0) = kDeleted"
    using poller_tag_transitions [of first_uninterested 0] added
    by (simp add: kAdded_def kNew_def kDeleted_def)
  from new added del
    poller_tag_transitions [of two_channels 0]
    poller_tag_transitions [of first_registered 0]
    poller_tag_transitions [of first_uninterested 0]
    poller_tag_transitions [of "update_channel 0 first_uninterested" 0]
    poller_tag_transitions [of two_channels 1]
  show ?thesis
    by (simp add: first_uninterested_def reg two_channels_def Channel_new_def KNoneEvent_def)
qed

text \<open>
  C7 as stated fails where the descriptor is not a key of the map: after both
  channels of \<open>two_channels\<close> were registered and the first removed (which erased the
  shared key 3), the second still carries the tag Added, and \<open>remove_channel\<close> on it
  issues no DEL and leaves the tag Added.
\<close>

theorem remove_channel_unregistered_counterexample:
  "index (heap first_removed 1) = kAdded
   \<and> index (heap (remove_channel 1 first_removed) 1) \<noteq> kNew
   \<and> epoll_calls (remove_channel 1 first_removed) = epoll_calls first_removed"
  by (simp add: first_removed_def two_channels_def update_channel_def remove_channel_def
      update_def store_index_def set_index_def is_none_event_def KNoneEvent_def KReadEvent_def
      EPOLLIN_def EPOLLPRI_def Channel_new_def kNew_def kAdded_def kDeleted_def Let_def)

subsection \<open>Poller: \<open>has_channel\<close>\<close>

text \<open>
  C8 (as amended). \<open>has_channel(ch)\<close> is true exactly when the descriptor of \<open>ch\<close> is a
  key of the map and the pointer stored under it is \<open>ch\<close> itself.
\<close>

theorem has_channel_compares_pointer:
  "has_channel c s \<longleftrightarrow>
     fd (heap s c) \<in> dom (channels s) \<and> the (channels s (fd (heap s c))) = c"
  by (auto simp: has_channel_def split: option.splits)

text \<open>
  C8 as stated fails: with only the channel at address 0 registered, the
  descriptor of the channel at address 1 is a key of the map, and \<open>has_channel\<close>
  answers false for it.
\<close>

theorem has_channel_other_object_counterexample:
  "fd (heap first_registered 1) \<in> dom (channels first_registered)
   \<and> channels first_registered (fd (heap first_registered 1)) = Some 0
   \<and> \<not> has_channel 1 first_registered"
  by (simp add: first_registered_def two_channels_def update_channel_def has_channel_def
      update_def store_index_def set_index_def Channel_new_def kNew_def kAdded_def
      kDeleted_def Let_def)

subsection \<open>EventLoopThreadPool: round robin\<close>

lemma get_next_loop_step:
  assumes "next_idx p < length (loops p)"
  shows "get_next_loop p = (loops p ! next_idx p, p\<lparr>next_idx := Suc (next_idx p) mod length (loops p)\<rparr>)"
proof -
  from assms have ne: "loops p \<noteq> []" by auto
  show ?thesis
  proof (cases "Suc (next_idx p) \<ge> length (loops p)")
    case True
    with assms have "Suc (next_idx p) = length (loops p)" by simp
    then have "Suc (next_idx p) mod length (loops p) = 0" by simp
    with True ne show ?thesis by (simp add: get_next_loop_def Let_def)
  next
    case False
    then have "Suc (next_idx p) mod length (loops p) = Suc (next_idx p)" by simp
    with False ne show ?thesis by (simp add: get_next_loop_def Let_def)
  qed
qed

lemma accept_loops_eq:
  "next_idx p < length (loops p) \<Longrightarrow>
   fst (accept_loops m p) = map (\<lambda>k. loops p ! ((next_idx p + k) mod length (loops p))) [0..<m]"
proof (induction m arbitrary: p)
  case 0
  then show ?case by simp
next
  case (Suc m)
  define p1 where "p1 = p\<lparr>next_idx := Suc (next_idx p) mod length (loops p)\<rparr>"
  from Suc.prems have step: "get_next_loop p = (loops p ! next_idx p, p1)"
    unfolding p1_def by (rule get_next_loop_step)
  from Suc.prems have "0 < length (loops p)" by linarith
  then have "next_idx p1 < length (loops p1)"
    unfolding p1_def by simp
  then have "fst (accept_loops m p1) =
      map (\<lambda>k. loops p1 ! ((next_idx p1 + k) mod length (loops p1))) [0..<m]"
    by (rule Suc.IH)
  also have "\<dots> = map (\<lambda>k. loops p ! ((next_idx p + Suc k) mod length (loops p))) [0..<m]"
    unfolding p1_def by (simp add: mod_add_left_eq)
  finally have rest: "fst (accept_loops m p1) =
      map (\<lambda>k. loops p ! ((next_idx p + Suc k) mod length (loops p))) [0..<m]" .
  have "[0..<Suc m] = 0 # map Suc [0..<m]"
    by (simp add: upt_conv_Cons map_Suc_upt del: upt_Suc)
  then have "map (\<lambda>k. loops p ! ((next_idx p + k) mod length (loops p))) [0..<Suc m]
     = loops p ! (next_idx p mod length (loops p)) #
       map (\<lambda>k. loops p ! ((next_idx p + Suc k) mod length (loops p))) [0..<m]"
    by (simp add: comp_def del: upt_Suc)
  with rest step Suc.prems show ?case
    by (simp add: split_beta del: upt_Suc)
qed

lemma count_residue_step:
  "0 < N \<Longrightarrow> j < N \<Longrightarrow>
   M div N + (if j < M mod N then 1 else 0) + (if M mod N = j then 1 else 0)
    = Suc M div N + (if j < Suc M mod N then 1 else (0::nat))"
  by (auto simp: mod_Suc div_Suc)

lemma count_residue:
  "0 < N \<Longrightarrow> j < N \<Longrightarrow>
   length (filter (\<lambda>k. k mod N = j) [0..<M]) = M div N + (if j < M mod N then 1 else 0)"
proof (induction M)
  case 0
  then show ?case by simp
next
  case (Suc M)
  have "length (filter (\<lambda>k. k mod N = j) [0..<Suc M])
        = length (filter (\<lambda>k. k mod N = j) [0..<M]) + (if M mod N = j then 1 else 0)"
    by simp
  also have "\<dots> = M div N + (if j < M mod N then 1 else 0) + (if M mod N = j then 1 else 0)"
    using Suc by simp
  also have "\<dots> = Suc M div N + (if j < Suc M mod N then 1 else 0)"
    using Suc.prems by (rule count_residue_step)
  finally show ?case .
qed

lemma offset_back: "i < (N::nat) \<Longrightarrow> c < N \<Longrightarrow> (c + (i + N - c) mod N) mod N = i"
  by (metis add.commute add_lessD1 leI le_add_diff_inverse mod_add_right_eq
    mod_add_self1 mod_less order_less_imp_not_less)

lemma offset_forth:
  assumes "c < (N::nat)"
  shows "((c + k) mod N + N - c) mod N = k mod N"
proof -
  define r where "r = k mod N"
  from assms have r: "r < N" unfolding r_def by simp
  have e: "(c + k) mod N = (c + r) mod N"
    unfolding r_def by (simp add: mod_add_right_eq)
  show ?thesis
  proof (cases "c + r < N")
    case True
    then have "(c + r) mod N + N - c = r + N" by simp
    with r show ?thesis unfolding e r_def [symmetric] by simp
  next
    case False
    with r assms have "(c + r) mod N = c + r - N"
      by (simp add: mod_if)
    with False have "(c + r) mod N + N - c = r" by simp
    with r show ?thesis unfolding e r_def [symmetric] by simp
  qed
qed

lemma residue_iff:
  assumes "i < (N::nat)" and "c < N"
  shows "((c + k) mod N = i) = (k mod N = (i + N - c) mod N)"
proof
  assume "(c + k) mod N = i"
  then show "k mod N = (i + N - c) mod N"
    using offset_forth [OF assms(2), of k] by simp
next
  assume "k mod N = (i + N - c) mod N"
  then have "(c + k) mod N = (c + (i + N - c) mod N) mod N"
    by (metis mod_add_right_eq)
  with assms show "(c + k) mod N = i"
    by (simp add: offset_back)
qed

lemma ceil_div:
  assumes "0 < (N::nat)"
  shows "(M + N - 1) div N = M div N + (if M mod N = 0 then 0 else 1)"
proof -
  define q r where "q = M div N" and "r = M mod N"
  have M: "M = q * N + r" unfolding q_def r_def by simp
  from assms have r: "r < N" unfolding r_def by simp
  show ?thesis
  proof (cases "r = 0")
    case True
    with assms have "M + N - 1 = (N - 1) + q * N" unfolding M by simp
    then have "(M + N - 1) div N = (N - 1) div N + q"
      using assms by (simp only: div_mult_self1 [OF less_imp_neq [THEN not_sym]])
    with True assms show ?thesis unfolding q_def [symmetric] r_def [symmetric] by simp
  next
    case False
    then have "M + N - 1 = (r - 1) + (q + 1) * N" unfolding M by simp
    then have "(M + N - 1) div N = (r - 1) div N + (q + 1)"
      using assms by (simp only: div_mult_self1 [OF less_imp_neq [THEN not_sym]])
    with False r show ?thesis unfolding q_def [symmetric] r_def [symmetric] by simp
  qed
qed

lemma count_nth:
  assumes "distinct xs" and "i < length xs" and "\<forall>k \<in> set ks. f k < length xs"
  shows "count_list (map (\<lambda>k. xs ! f k) ks) (xs ! i) = length (filter (\<lambda>k. f k = i) ks)"
  using assms(3)
proof (induction ks)
  case Nil
  then show ?case by simp
next
  case (Cons k ks)
  with assms(1,2) show ?case
    by (simp add: nth_eq_iff_index_eq)
qed

lemma accept_count:
  assumes "distinct (loops p)" and "next_idx p < length (loops p)" and "i < length (loops p)"
  shows "count_list (fst (accept_loops M p)) (loops p ! i)
         = M div length (loops p)
           + (if (i + length (loops p) - next_idx p) mod length (loops p) < M mod length (loops p)
              then 1 else 0)"
proof -
  define N where "N = length (loops p)"
  define c where "c = next_idx p"
  define j where "j = (i + N - c) mod N"
  from assms(3) have N: "0 < N" unfolding N_def by linarith
  then have j: "j < N" unfolding j_def by simp
  have "fst (accept_loops M p) = map (\<lambda>k. loops p ! ((c + k) mod N)) [0..<M]"
    unfolding c_def N_def using assms(2) by (rule accept_loops_eq)
  moreover have "\<forall>k \<in> set [0..<M]. (c + k) mod N < length (loops p)"
    using N unfolding N_def by simp
  ultimately have "count_list (fst (accept_loops M p)) (loops p ! i)
                   = length (filter (\<lambda>k. (c + k) mod N = i) [0..<M])"
    using count_nth [OF assms(1) assms(3), of "[0..<M]" "\<lambda>k. (c + k) mod N"] by simp
  also have "\<dots> = length (filter (\<lambda>k. k mod N = j) [0..<M])"
    using residue_iff [of i N c] assms(2,3) unfolding N_def c_def j_def by simp
  also have "\<dots> = M div N + (if j < M mod N then 1 else 0)"
    using N j by (rule count_residue)
  finally show ?thesis
    unfolding N_def c_def j_def .
qed

text \<open>
  C9. Without workers \<open>get_next_loop\<close> returns the base loop; with workers it returns
  \<open>loops[cursor]\<close> and advances the cursor modulo their number. Over \<open>M\<close> accepts
  in sequence, from any cursor position, each of the \<open>N\<close> (distinct) workers is
  chosen floor(M/N) or ceil(M/N) times.
\<close>

theorem round_robin_fair:
  "(loops p = [] \<longrightarrow> get_next_loop p = (baseLoop p, p))
   \<and> (next_idx p < length (loops p) \<longrightarrow>
        get_next_loop p =
          (loops p ! next_idx p, p\<lparr>next_idx := (next_idx p + 1) mod length (loops p)\<rparr>))
   \<and> (distinct (loops p) \<and> next_idx p < length (loops p) \<and> i < length (loops p) \<longrightarrow>
        count_list (fst (accept_loops M p)) (loops p ! i) = M div length (loops p) \<or>
        count_list (fst (accept_loops M p)) (loops p ! i)
          = (M + length (loops p) - 1) div length (loops p))"
proof (intro conjI impI)
  assume "loops p = []"
  then show "get_next_loop p = (baseLoop p, p)"
    by (simp add: get_next_loop_def)
next
  assume "next_idx p < length (loops p)"
  then show "get_next_loop p =
          (loops p ! next_idx p, p\<lparr>next_idx := (next_idx p + 1) mod length (loops p)\<rparr>)"
    by (simp add: get_next_loop_step)
next
  assume h: "distinct (loops p) \<and> next_idx p < length (loops p) \<and> i < length (loops p)"
  define N where "N = length (loops p)"
  from h have N: "0 < N" unfolding N_def by linarith
  from h have cnt: "count_list (fst (accept_loops M p)) (loops p ! i)
         = M div N + (if (i + N - next_idx p) mod N < M mod N then 1 else 0)"
    unfolding N_def by (simp add: accept_count)
  have ceil: "(M + N - 1) div N = M div N + (if M mod N = 0 then 0 else 1)"
    using N by (rule ceil_div)
  show "count_list (fst (accept_loops M p)) (loops p ! i) = M div length (loops p) \<or>
        count_list (fst (accept_loops M p)) (loops p ! i)
          = (M + length (loops p) - 1) div length (loops p)"
    unfolding N_def [symmetric] cnt ceil by auto
qed

theorem round_robin_fair_witness:
  "loops (EventLoopThreadPool_new 1) = []
   \<and> fst (get_next_loop (EventLoopThreadPool_new 1)) = 1
   \<and> distinct (loops (start [10, 11, 12, 13] (set_thread_num 4 (EventLoopThreadPool_new 1))))
   \<and> next_idx (start [10, 11, 12, 13] (set_thread_num 4 (EventLoopThreadPool_new 1)))
       < length (loops (start [10, 11, 12, 13] (set_thread_num 4 (EventLoopThreadPool_new 1))))
   \<and> (2::nat) < length (loops (start [10, 11, 12, 13] (set_thread_num 4 (EventLoopThreadPool_new 1))))
   \<and> fst (get_next_loop (start [10, 11, 12, 13] (set_thread_num 4 (EventLoopThreadPool_new 1))))
       = 10
   \<and> (count_list (fst (accept_loops 10
          (start [10, 11, 12, 13] (set_thread_num 4 (EventLoopThreadPool_new 1))))) 12 = 2
      \<or> count_list (fst (accept_loops 10
          (start [10, 11, 12, 13] (set_thread_num 4 (EventLoopThreadPool_new 1))))) 12 = 3)"
proof -
  define p where "p = start [10, 11, 12, 13] (set_thread_num 4 (EventLoopThreadPool_new 1))"
  have lp: "loops p = [10, 11, 12, 13]" and np: "next_idx p = 0"
    by (simp_all add: p_def start_def set_thread_num_def EventLoopThreadPool_new_def)
  have e: "loops (EventLoopThreadPool_new 1) = []"
    by (simp add: EventLoopThreadPool_new_def)
  have b: "baseLoop (EventLoopThreadPool_new 1) = 1"
    by (simp add: EventLoopThreadPool_new_def)
  from round_robin_fair [of "EventLoopThreadPool_new 1" 0 0] e b
    round_robin_fair [of p 2 10] lp np
  show ?thesis
    unfolding p_def [symmetric] by simp
qed

subsection \<open>TcpConnection: the send path\<close>

lemma written_bytes_append: "written_bytes (xs @ ys) = written_bytes xs @ written_bytes ys"
  by (induction xs rule: written_bytes.induct) simp_all

lemma state_queue_in_loop [simp]: "state (queue_in_loop il f c) = state c"
  by (simp add: queue_in_loop_def Let_def)

lemma state_shut_down_in_loop [simp]: "state (shut_down_in_loop c) = state c"
  by (simp add: shut_down_in_loop_def)

lemma state_shut_down:
  "state c = kConnected \<Longrightarrow> state (shut_down il c) = kDisconnecting"
  by (simp add: shut_down_def run_in_loop_def)

text \<open>
  C10. \<open>send\<close> called in any state other than Connected returns the state it was
  given: nothing is written, queued, logged or changed. After \<open>shut_down\<close> on a
  Connected connection the state is Disconnecting, so a \<open>send\<close> that follows is
  dropped in this way.
\<close>

theorem send_dropped_unless_connected:
  "(state c \<noteq> kConnected \<longrightarrow> send il buf c = c)
   \<and> (state c = kConnected \<longrightarrow>
        state (shut_down il' c) = kDisconnecting \<and>
        send il buf (shut_down il' c) = shut_down il' c)"
  by (simp add: state_shut_down send_def)

lemma queue_in_loop_fields:
  "pendingFunctors (queue_in_loop il f c) = pendingFunctors c @ [f]"
  "outputBuffer (queue_in_loop il f c) = outputBuffer c"
  "connChannel (queue_in_loop il f c) = connChannel c"
  "highWaterMark (queue_in_loop il f c) = highWaterMark c"
  "highWaterMarkCallback (queue_in_loop il f c) = highWaterMarkCallback c"
  "writeCompleteCallback (queue_in_loop il f c) = writeCompleteCallback c"
  "write_answers (queue_in_loop il f c) = write_answers c"
  "memory (queue_in_loop il f c) = memory c"
  "fate (queue_in_loop il f c) = fate c"
  "alloc_answers (queue_in_loop il f c) = alloc_answers c"
  by (simp_all add: queue_in_loop_def Let_def)

lemma sock_write_fields:
  "pendingFunctors (snd (sock_write d c)) = pendingFunctors c"
  "outputBuffer (snd (sock_write d c)) = outputBuffer c"
  "connChannel (snd (sock_write d c)) = connChannel c"
  "highWaterMark (snd (sock_write d c)) = highWaterMark c"
  "highWaterMarkCallback (snd (sock_write d c)) = highWaterMarkCallback c"
  "writeCompleteCallback (snd (sock_write d c)) = writeCompleteCallback c"
  "state (snd (sock_write d c)) = state c"
  "memory (snd (sock_write d c)) = memory c"
  "log_answers (snd (sock_write d c)) = log_answers c"
  "fate (snd (sock_write d c)) = fate c"
  "alloc_answers (snd (sock_write d c)) = alloc_answers c"
  by (simp_all add: sock_write_def split: list.splits write_result.splits)

lemma sock_write_errno:
  "sock_write d c = (WriteError e, c') \<Longrightarrow> errno c' = e"
  by (auto simp: sock_write_def split: list.splits write_result.splits)

lemma log_error_fields:
  "pendingFunctors (log_error c) = pendingFunctors c"
  "outputBuffer (log_error c) = outputBuffer c"
  "connChannel (log_error c) = connChannel c"
  "highWaterMark (log_error c) = highWaterMark c"
  "highWaterMarkCallback (log_error c) = highWaterMarkCallback c"
  "writeCompleteCallback (log_error c) = writeCompleteCallback c"
  "state (log_error c) = state c"
  "write_answers (log_error c) = write_answers c"
  "memory (log_error c) = memory c"
  "trace (log_error c) = trace c @ [LogError]"
  "errno (log_error c) = errno_after_log (errno c) (log_answers c)"
  "fate (log_error c) = fate c"
  "alloc_answers (log_error c) = alloc_answers c"
  by (simp_all add: log_error_def errno_after_log_def split: list.splits option.splits)

lemma try_direct_write_fields:
  assumes "try_direct_write data c = (nwrote, fault, c1)"
  shows "outputBuffer c1 = outputBuffer c"
    and "connChannel c1 = connChannel c"
    and "highWaterMark c1 = highWaterMark c"
    and "highWaterMarkCallback c1 = highWaterMarkCallback c"
    and "state c1 = state c"
    and "\<exists>Y. pendingFunctors c1 = pendingFunctors c @ Y \<and>
             filter is_high_water_mark_task Y = []"
    and "fate c1 = fate c"
proof -
  obtain r c' where sw: "sock_write data c = (r, c')" by (cases "sock_write data c")
  have f: "pendingFunctors c' = pendingFunctors c" "outputBuffer c' = outputBuffer c"
    "connChannel c' = connChannel c" "highWaterMark c' = highWaterMark c"
    "highWaterMarkCallback c' = highWaterMarkCallback c" "state c' = state c"
    "fate c' = fate c"
    using sock_write_fields [of data c] sw by simp_all
  have "outputBuffer c1 = outputBuffer c \<and> connChannel c1 = connChannel c \<and>
        highWaterMark c1 = highWaterMark c \<and>
        highWaterMarkCallback c1 = highWaterMarkCallback c \<and> state c1 = state c \<and>
        (\<exists>Y. pendingFunctors c1 = pendingFunctors c @ Y \<and>
             filter is_high_water_mark_task Y = []) \<and> fate c1 = fate c"
  proof (cases "\<not> is_writing_event (connChannel c) \<and> readable_bytes (outputBuffer c) = 0")
    case False
    with assms show ?thesis
      by (auto simp: try_direct_write_def)
  next
    case True
    show ?thesis
    proof (cases r)
      case (Wrote n)
      with assms sw True f show ?thesis
        by (auto simp: try_direct_write_def queue_in_loop_fields split: if_splits)
    next
      case (WriteError e)
      with assms sw True f show ?thesis
        by (auto simp: try_direct_write_def Let_def log_error_fields split: if_splits)
    qed
  qed
  then show "outputBuffer c1 = outputBuffer c"
    and "connChannel c1 = connChannel c"
    and "highWaterMark c1 = highWaterMark c"
    and "highWaterMarkCallback c1 = highWaterMarkCallback c"
    and "state c1 = state c"
    and "\<exists>Y. pendingFunctors c1 = pendingFunctors c @ Y \<and>
             filter is_high_water_mark_task Y = []"
    and "fate c1 = fate c"
    by simp_all
qed

lemma enable_writing_fields:
  "pendingFunctors (enable_writing c) = pendingFunctors c"
  "outputBuffer (enable_writing c) = outputBuffer c"
  "fate (enable_writing c) = fate c"
  "state (enable_writing c) = state c"
  "\<exists>m. trace (enable_writing c) = trace c @ [ChannelUpdate m]"
  by (simp_all add: enable_writing_def channel_update_def)

lemma writing_after_enable: "is_writing_event (connChannel (enable_writing c))"
proof -
  have "(events (connChannel c) OR KWriteEvent) AND KWriteEvent = KWriteEvent"
    by (simp add: ac_simps)
  then show ?thesis
    by (simp add: enable_writing_def channel_update_def is_writing_event_def
        KWriteEvent_def EPOLLOUT_def)
qed

lemma next_allocation_fields:
  assumes "next_allocation c = (a, c2)"
  shows "pendingFunctors c2 = pendingFunctors c" and "outputBuffer c2 = outputBuffer c"
    and "connChannel c2 = connChannel c" and "state c2 = state c"
    and "fate c2 = fate c" and "trace c2 = trace c"
  using assms by (auto simp: next_allocation_def split: list.splits)

lemma queue_in_loop_trace:
  "\<exists>T. trace (queue_in_loop il f c) = trace c @ Queued f # T \<and> set T \<subseteq> {Wakeup}"
  by (simp add: queue_in_loop_def Let_def)

lemma written_bytes_none:
  "set T \<subseteq> {Wakeup, LogError} \<union> range Queued \<union> range ChannelUpdate
   \<Longrightarrow> written_bytes T = []"
  by (induction T rule: written_bytes.induct) auto

text \<open>
  What \<open>buffer_remaining\<close> does: it queues the high-water-mark callback or not, and
  then either appends, with write interest on afterwards, or is left by \<open>append\<close> with
  the buffer and the channel as they were.
\<close>

lemma buffer_remaining_cases:
  assumes "Buffer_inv (outputBuffer c)"
  shows "pendingFunctors (buffer_remaining data nwrote c)
         = pendingFunctors c @
           (if highWaterMarkCallback c \<and>
               readable_bytes (outputBuffer c) < highWaterMark c \<and>
               highWaterMark c \<le> readable_bytes (outputBuffer c) + (length data - nwrote)
            then [HighWaterMarkTask (readable_bytes (outputBuffer c) + (length data - nwrote))]
            else [])"
    and "state (buffer_remaining data nwrote c) = state c"
    and "(fate (buffer_remaining data nwrote c) = fate c \<and>
          Buffer_inv (outputBuffer (buffer_remaining data nwrote c)) \<and>
          readable_bytes (outputBuffer (buffer_remaining data nwrote c))
            = readable_bytes (outputBuffer c) + (length data - nwrote) \<and>
          pending_bytes (buffer_remaining data nwrote c) = pending_bytes c @ drop nwrote data \<and>
          is_writing_event (connChannel (buffer_remaining data nwrote c)))
         \<or> (fate (buffer_remaining data nwrote c) \<noteq> Running \<and>
             outputBuffer (buffer_remaining data nwrote c) = outputBuffer c \<and>
             connChannel (buffer_remaining data nwrote c) = connChannel c)"
    and "\<exists>T. trace (buffer_remaining data nwrote c) = trace c @ T \<and>
             set T \<subseteq> {Wakeup} \<union> range Queued \<union> range ChannelUpdate"
proof -
  define Q where "Q = (if highWaterMarkCallback c \<and>
               readable_bytes (outputBuffer c) < highWaterMark c \<and>
               highWaterMark c \<le> readable_bytes (outputBuffer c) + (length data - nwrote)
            then [HighWaterMarkTask (readable_bytes (outputBuffer c) + (length data - nwrote))]
            else [])"
  define c1 where "c1 = (if readable_bytes (outputBuffer c) + (length data - nwrote)
                              \<ge> highWaterMark c \<and>
                   readable_bytes (outputBuffer c) < highWaterMark c \<and> highWaterMarkCallback c
                then queue_in_loop True
                       (HighWaterMarkTask (readable_bytes (outputBuffer c) + (length data - nwrote))) c
                else c)"
  obtain a c2 where na: "next_allocation c1 = (a, c2)" by (cases "next_allocation c1")
  note n = next_allocation_fields [OF na]
  define d where "d = drop nwrote data"
  have br: "buffer_remaining data nwrote c =
      (case append_buf a (outputBuffer c2) d of
         Returned b \<Rightarrow>
           (if \<not> is_writing_event (connChannel c2) then enable_writing (c2\<lparr>outputBuffer := b\<rparr>)
            else c2\<lparr>outputBuffer := b\<rparr>)
       | Thrown e b \<Rightarrow> c2\<lparr>outputBuffer := b, fate := Uncaught e\<rparr>
       | Undefined \<Rightarrow> c2\<lparr>fate := UndefinedBehaviour\<rparr>)"
    unfolding buffer_remaining_def Let_def c1_def [symmetric] d_def na
    by (simp split: outcome.splits)
  have f1: "outputBuffer c1 = outputBuffer c" "connChannel c1 = connChannel c"
    "state c1 = state c" "fate c1 = fate c" "pendingFunctors c1 = pendingFunctors c @ Q"
    unfolding c1_def Q_def by (auto simp: queue_in_loop_fields)
  have "c1 = c \<or> (\<exists>f. c1 = queue_in_loop True f c)"
    unfolding c1_def by auto
  then obtain T1 where T1: "trace c1 = trace c @ T1" "set T1 \<subseteq> {Wakeup} \<union> range Queued"
  proof
    assume "c1 = c"
    then have "trace c1 = trace c @ []" "set [] \<subseteq> {Wakeup} \<union> range Queued" by simp_all
    then show ?thesis by (rule that)
  next
    assume "\<exists>f. c1 = queue_in_loop True f c"
    then obtain f where q: "c1 = queue_in_loop True f c" by blast
    from queue_in_loop_trace [of True f c] obtain T
      where T: "trace c1 = trace c @ Queued f # T" "set T \<subseteq> {Wakeup}"
      unfolding q by blast
    from T(2) have "set (Queued f # T) \<subseteq> {Wakeup} \<union> range Queued" by auto
    with T(1) show ?thesis by (rule that)
  qed
  have inv2: "Buffer_inv (outputBuffer c2)"
    using assms by (simp add: n f1)
  have ld: "length d = length data - nwrote"
    by (simp add: d_def)
  have all: "pendingFunctors (buffer_remaining data nwrote c) = pendingFunctors c @ Q \<and>
    state (buffer_remaining data nwrote c) = state c \<and>
    ((fate (buffer_remaining data nwrote c) = fate c \<and>
          Buffer_inv (outputBuffer (buffer_remaining data nwrote c)) \<and>
          readable_bytes (outputBuffer (buffer_remaining data nwrote c))
            = readable_bytes (outputBuffer c) + (length data - nwrote) \<and>
          pending_bytes (buffer_remaining data nwrote c) = pending_bytes c @ d \<and>
          is_writing_event (connChannel (buffer_remaining data nwrote c)))
         \<or> (fate (buffer_remaining data nwrote c) \<noteq> Running \<and>
             outputBuffer (buffer_remaining data nwrote c) = outputBuffer c \<and>
             connChannel (buffer_remaining data nwrote c) = connChannel c)) \<and>
    (\<exists>T2. trace (buffer_remaining data nwrote c) = trace c1 @ T2 \<and>
          set T2 \<subseteq> range ChannelUpdate)"
  proof (cases "append_buf a (outputBuffer c2) d")
    case (Returned b)
    note r = append_returned(1-3) [OF inv2 Returned]
    have pb: "take (readable_bytes b) (peek b) = pending_bytes c @ d"
      using r(3) by (simp add: pending_bytes_def n f1)
    show ?thesis
    proof (cases "is_writing_event (connChannel c2)")
      case True
      with Returned have e: "buffer_remaining data nwrote c = c2\<lparr>outputBuffer := b\<rparr>"
        unfolding br by simp
      from True r pb show ?thesis
        unfolding e by (simp add: n f1 ld pending_bytes_def)
    next
      case False
      with Returned have e: "buffer_remaining data nwrote c = enable_writing (c2\<lparr>outputBuffer := b\<rparr>)"
        unfolding br by simp
      from enable_writing_fields(5) [of "c2\<lparr>outputBuffer := b\<rparr>"] obtain m where
        "trace (enable_writing (c2\<lparr>outputBuffer := b\<rparr>)) = trace c1 @ [ChannelUpdate m]"
        by (auto simp: n)
      with r pb writing_after_enable [of "c2\<lparr>outputBuffer := b\<rparr>"] show ?thesis
        unfolding e by (simp add: enable_writing_fields n f1 ld pending_bytes_def)
    qed
  next
    case (Thrown e b)
    from append_thrown [OF Thrown] have "b = outputBuffer c2" .
    with Thrown show ?thesis
      unfolding br by (simp add: n f1)
  next
    case Undefined
    then show ?thesis
      unfolding br by (simp add: n f1)
  qed
  from all show "pendingFunctors (buffer_remaining data nwrote c)
         = pendingFunctors c @
           (if highWaterMarkCallback c \<and>
               readable_bytes (outputBuffer c) < highWaterMark c \<and>
               highWaterMark c \<le> readable_bytes (outputBuffer c) + (length data - nwrote)
            then [HighWaterMarkTask (readable_bytes (outputBuffer c) + (length data - nwrote))]
            else [])"
    unfolding Q_def by simp
  from all show "state (buffer_remaining data nwrote c) = state c" by simp
  from all show "(fate (buffer_remaining data nwrote c) = fate c \<and>
          Buffer_inv (outputBuffer (buffer_remaining data nwrote c)) \<and>
          readable_bytes (outputBuffer (buffer_remaining data nwrote c))
            = readable_bytes (outputBuffer c) + (length data - nwrote) \<and>
          pending_bytes (buffer_remaining data nwrote c) = pending_bytes c @ drop nwrote data \<and>
          is_writing_event (connChannel (buffer_remaining data nwrote c)))
         \<or> (fate (buffer_remaining data nwrote c) \<noteq> Running \<and>
             outputBuffer (buffer_remaining data nwrote c) = outputBuffer c \<and>
             connChannel (buffer_remaining data nwrote c) = connChannel c)"
    unfolding d_def by simp
  from all obtain T2 where "trace (buffer_remaining data nwrote c) = trace c1 @ T2"
    "set T2 \<subseteq> range ChannelUpdate" by blast
  with T1 have "trace (buffer_remaining data nwrote c) = trace c @ (T1 @ T2)"
    "set (T1 @ T2) \<subseteq> {Wakeup} \<union> range Queued \<union> range ChannelUpdate"
    by auto
  then show "\<exists>T. trace (buffer_remaining data nwrote c) = trace c @ T \<and>
             set T \<subseteq> {Wakeup} \<union> range Queued \<union> range ChannelUpdate"
    by blast
qed

lemma buffer_remaining_trace:
  assumes "Buffer_inv (outputBuffer c)"
  shows "\<exists>T. trace (buffer_remaining data nwrote c) = trace c @ T \<and> written_bytes T = [] \<and>
             SysShutdownWr \<notin> set T \<and> UserWriteComplete \<notin> set T"
proof -
  from buffer_remaining_cases(4) [OF assms, of data nwrote] obtain T where
    T: "trace (buffer_remaining data nwrote c) = trace c @ T"
    "set T \<subseteq> {Wakeup} \<union> range Queued \<union> range ChannelUpdate" by blast
  from T(2) have "written_bytes T = []"
    by (intro written_bytes_none) auto
  moreover from T(2) have "SysShutdownWr \<notin> set T" "UserWriteComplete \<notin> set T" by auto
  ultimately show ?thesis using T(1) by blast
qed

lemma sock_write_trace:
  assumes "sock_write data c = (r, c')"
  shows "\<exists>T. trace c' = trace c @ T \<and> set T \<subseteq> range SysWrite \<and>
             written_bytes T = (case r of Wrote n \<Rightarrow> take n data | WriteError e \<Rightarrow> [])"
    and "case r of Wrote n \<Rightarrow> n \<le> length data | WriteError e \<Rightarrow> True"
  using assms
  by (auto simp: sock_write_def min_def split: list.splits write_result.splits)

lemma try_direct_write_trace:
  assumes "try_direct_write data c = (nwrote, fault, c1)"
  shows "\<exists>T. trace c1 = trace c @ T \<and> written_bytes T = take nwrote data"
    and "nwrote \<le> length data"
    and "fault = direct_write_fault c"
proof -
  obtain r c' where sw: "sock_write data c = (r, c')" by (cases "sock_write data c")
  from sock_write_trace [OF sw] obtain T0 where
    T0: "trace c' = trace c @ T0" "written_bytes T0 =
           (case r of Wrote n \<Rightarrow> take n data | WriteError e \<Rightarrow> [])"
    and le: "case r of Wrote n \<Rightarrow> n \<le> length data | WriteError e \<Rightarrow> True"
    by blast
  have "(\<exists>T. trace c1 = trace c @ T \<and> written_bytes T = take nwrote data) \<and>
        nwrote \<le> length data \<and> fault = direct_write_fault c"
  proof (cases "\<not> is_writing_event (connChannel c) \<and> readable_bytes (outputBuffer c) = 0")
    case False
    with assms show ?thesis
      by (auto simp: try_direct_write_def direct_write_fault_def)
  next
    case True
    show ?thesis
    proof (cases r)
      case (Wrote n)
      from sw Wrote have nf: "\<not> direct_write_fault c"
        by (auto simp: direct_write_fault_def sock_write_def
            split: list.splits write_result.splits)
      from assms sw True Wrote
      have c1: "c1 = c' \<or> c1 = queue_in_loop True WriteCompleteTask c'"
        and n: "nwrote = n" and f: "\<not> fault"
        by (auto simp: try_direct_write_def split: if_splits)
      from c1 obtain T1 where "trace c1 = trace c' @ T1" "written_bytes T1 = []"
      proof
        assume "c1 = c'"
        then have "trace c1 = trace c' @ []" "written_bytes [] = []" by simp_all
        then show ?thesis by (rule that)
      next
        assume q: "c1 = queue_in_loop True WriteCompleteTask c'"
        from queue_in_loop_trace [of True WriteCompleteTask c'] obtain T
          where T: "trace c1 = trace c' @ Queued WriteCompleteTask # T" "set T \<subseteq> {Wakeup}"
          unfolding q by blast
        from T(2) have "written_bytes (Queued WriteCompleteTask # T) = []"
          by (intro written_bytes_none) auto
        with T(1) show ?thesis by (rule that)
      qed
      with T0 Wrote n have "trace c1 = trace c @ (T0 @ T1)"
        "written_bytes (T0 @ T1) = take nwrote data"
        by (simp_all add: written_bytes_append)
      with le Wrote n f nf show ?thesis by auto
    next
      case (WriteError e)
      from sw WriteError have en: "errno c' = e"
        by (intro sock_write_errno) simp
      have la: "log_answers c' = log_answers c"
        using sock_write_fields(9) [of data c] sw by simp
      from sw WriteError True
      have df: "direct_write_fault c =
          (e \<noteq> EWOULDBLOCK \<and>
           (errno_after_log e (log_answers c) = EPIPE \<or>
            errno_after_log e (log_answers c) = ECONNRESET))"
        by (auto simp: direct_write_fault_def sock_write_def
            split: list.splits write_result.splits)
      from assms sw True WriteError en
      have c1: "c1 = c' \<or> c1 = log_error c'"
        and n: "nwrote = 0"
        and f: "fault = (e \<noteq> EWOULDBLOCK \<and>
                  (errno (log_error c') = EPIPE \<or> errno (log_error c') = ECONNRESET))"
        by (auto simp: try_direct_write_def Let_def split: if_splits)
      from c1 have "trace c1 = trace c' \<or> trace c1 = trace c' @ [LogError]"
        by (auto simp: log_error_fields)
      then obtain T1 where "trace c1 = trace c' @ T1" "written_bytes T1 = []"
        by fastforce
      with T0 WriteError n have "trace c1 = trace c @ (T0 @ T1)"
        "written_bytes (T0 @ T1) = take nwrote data"
        by (simp_all add: written_bytes_append)
      moreover from f df en la have "fault = direct_write_fault c"
        by (simp add: log_error_fields)
      ultimately show ?thesis using n by auto
    qed
  qed
  then show "\<exists>T. trace c1 = trace c @ T \<and> written_bytes T = take nwrote data"
    and "nwrote \<le> length data"
    and "fault = direct_write_fault c"
    by simp_all
qed

lemma send_in_loop_pending_length:
  assumes "Buffer_inv (outputBuffer c)"
  shows "filter is_high_water_mark_task (queued_since c (send_in_loop data c))
         = (if highWaterMarkCallback c \<and> state c \<noteq> kDisconnected \<and> \<not> direct_write_fault c \<and>
               readable_bytes (outputBuffer c) < highWaterMark c \<and>
               highWaterMark c \<le> readable_bytes (outputBuffer c)
                 + (length data - length (written_bytes (trace_since c (send_in_loop data c))))
            then [HighWaterMarkTask (readable_bytes (outputBuffer c)
                 + (length data - length (written_bytes (trace_since c (send_in_loop data c)))))]
            else [])"
    and "fate c = Running \<Longrightarrow>
         readable_bytes (outputBuffer (send_in_loop data c))
         = (if state c \<noteq> kDisconnected \<and> \<not> direct_write_fault c \<and>
               fate (send_in_loop data c) = Running
            then readable_bytes (outputBuffer c)
                 + (length data - length (written_bytes (trace_since c (send_in_loop data c))))
            else readable_bytes (outputBuffer c))"
proof -
  have "filter is_high_water_mark_task (queued_since c (send_in_loop data c))
         = (if highWaterMarkCallback c \<and> state c \<noteq> kDisconnected \<and> \<not> direct_write_fault c \<and>
               readable_bytes (outputBuffer c) < highWaterMark c \<and>
               highWaterMark c \<le> readable_bytes (outputBuffer c)
                 + (length data - length (written_bytes (trace_since c (send_in_loop data c))))
            then [HighWaterMarkTask (readable_bytes (outputBuffer c)
                 + (length data - length (written_bytes (trace_since c (send_in_loop data c)))))]
            else [])
       \<and> (fate c = Running \<longrightarrow>
         readable_bytes (outputBuffer (send_in_loop data c))
         = (if state c \<noteq> kDisconnected \<and> \<not> direct_write_fault c \<and>
               fate (send_in_loop data c) = Running
            then readable_bytes (outputBuffer c)
                 + (length data - length (written_bytes (trace_since c (send_in_loop data c))))
            else readable_bytes (outputBuffer c)))"
  proof (cases "state c = kDisconnected")
    case True
    then have "send_in_loop data c = log_error c"
      by (simp add: send_in_loop_def)
    with True show ?thesis
      by (simp add: log_error_fields queued_since_def)
  next
    case False
    obtain nwrote fault c1 where t: "try_direct_write data c = (nwrote, fault, c1)"
      by (cases "try_direct_write data c")
    note f = try_direct_write_fields [OF t]
    from f(6) obtain Y where Y: "pendingFunctors c1 = pendingFunctors c @ Y"
      "filter is_high_water_mark_task Y = []" by blast
    from try_direct_write_trace [OF t] obtain T where
      T: "trace c1 = trace c @ T" "written_bytes T = take nwrote data"
      and le: "nwrote \<le> length data" and fault: "fault = direct_write_fault c"
      by blast
    from assms f(1) have inv1: "Buffer_inv (outputBuffer c1)" by simp
    show ?thesis
    proof (cases "\<not> fault \<and> length data - nwrote > 0")
      case True
      with False t have s: "send_in_loop data c = buffer_remaining data nwrote c1"
        by (simp add: send_in_loop_def)
      from buffer_remaining_trace [OF inv1, of data nwrote] obtain T' where
        T': "trace (buffer_remaining data nwrote c1) = trace c1 @ T'" "written_bytes T' = []"
        by blast
      from T T' le have w: "length (written_bytes (trace_since c (send_in_loop data c))) = nwrote"
        unfolding s by (simp add: trace_since_def written_bytes_append)
      note b = buffer_remaining_cases [OF inv1, of data nwrote]
      have q: "filter is_high_water_mark_task (queued_since c (send_in_loop data c))
         = (if highWaterMarkCallback c \<and> readable_bytes (outputBuffer c) < highWaterMark c \<and>
               highWaterMark c \<le> readable_bytes (outputBuffer c) + (length data - nwrote)
            then [HighWaterMarkTask (readable_bytes (outputBuffer c) + (length data - nwrote))]
            else [])"
        by (simp add: queued_since_def s b(1) f Y)
      have r: "readable_bytes (outputBuffer (send_in_loop data c))
         = (if fate (send_in_loop data c) = Running
            then readable_bytes (outputBuffer c) + (length data - nwrote)
            else readable_bytes (outputBuffer c))" if "fate c = Running"
        using b(3) that unfolding s by (auto simp: f)
      from q r True fault False show ?thesis
        unfolding w by simp
    next
      case nobuf: False
      with False t have s: "send_in_loop data c = c1"
        by (auto simp: send_in_loop_def)
      from T le have w: "length (written_bytes (trace_since c (send_in_loop data c))) = nwrote"
        unfolding s by (simp add: trace_since_def)
      from nobuf fault False show ?thesis
        unfolding w unfolding s
        by (auto simp: f Y queued_since_def)
    qed
  qed
  then show "filter is_high_water_mark_task (queued_since c (send_in_loop data c))
         = (if highWaterMarkCallback c \<and> state c \<noteq> kDisconnected \<and> \<not> direct_write_fault c \<and>
               readable_bytes (outputBuffer c) < highWaterMark c \<and>
               highWaterMark c \<le> readable_bytes (outputBuffer c)
                 + (length data - length (written_bytes (trace_since c (send_in_loop data c))))
            then [HighWaterMarkTask (readable_bytes (outputBuffer c)
                 + (length data - length (written_bytes (trace_since c (send_in_loop data c)))))]
            else [])"
    and "fate c = Running \<Longrightarrow>
         readable_bytes (outputBuffer (send_in_loop data c))
         = (if state c \<noteq> kDisconnected \<and> \<not> direct_write_fault c \<and>
               fate (send_in_loop data c) = Running
            then readable_bytes (outputBuffer c)
                 + (length data - length (written_bytes (trace_since c (send_in_loop data c))))
            else readable_bytes (outputBuffer c))"
    by simp_all
qed

subsection \<open>TcpConnection: half close\<close>

lemma pending_bytes_length:
  assumes "Buffer_inv (outputBuffer c)"
  shows "length (pending_bytes c) = readable_bytes (outputBuffer c)"
  using inv_bounds [OF assms]
  unfolding pending_bytes_def peek_def inv_readable [OF assms]
  by (simp add: min_absorb2 diff_le_mono)

lemma not_writing_after_disable: "\<not> is_writing_event (connChannel (disable_writing c))"
  by (simp add: disable_writing_def channel_update_def is_writing_event_def and.assoc)

lemma disable_writing_fields:
  "state (disable_writing c) = state c"
  "outputBuffer (disable_writing c) = outputBuffer c"
  "writeCompleteCallback (disable_writing c) = writeCompleteCallback c"
  "pendingFunctors (disable_writing c) = pendingFunctors c"
  "\<exists>m. trace (disable_writing c) = trace c @ [ChannelUpdate m]"
  by (simp_all add: disable_writing_def channel_update_def)

lemma output_drained_half_close:
  assumes "state c = kDisconnecting"
  shows "state (output_drained c) = kDisconnecting"
    and "\<not> is_writing_event (connChannel (output_drained c))"
    and "outputBuffer (output_drained c) = outputBuffer c"
    and "pendingFunctors (output_drained c)
         = pendingFunctors c @ (if writeCompleteCallback c then [WriteCompleteTask] else [])"
    and "\<exists>X. trace (output_drained c) = trace c @ X @ [SysShutdownWr] \<and>
             SysShutdownWr \<notin> set X \<and> UserWriteComplete \<notin> set X \<and> written_bytes X = [] \<and>
             (writeCompleteCallback c \<longrightarrow> Queued WriteCompleteTask \<in> set X)"
proof -
  define c1 where "c1 = disable_writing c"
  define c2 where "c2 = (if writeCompleteCallback c1
                then queue_in_loop True WriteCompleteTask c1 else c1)"
  have nw1: "\<not> is_writing_event (connChannel c1)"
    unfolding c1_def by (rule not_writing_after_disable)
  then have nw2: "\<not> is_writing_event (connChannel c2)"
    unfolding c2_def by (simp add: queue_in_loop_fields)
  from assms have st2: "state c2 = kDisconnecting"
    unfolding c2_def c1_def by (simp add: disable_writing_fields)
  then have od: "output_drained c = c2\<lparr>trace := trace c2 @ [SysShutdownWr]\<rparr>"
    unfolding output_drained_def Let_def c1_def [symmetric] c2_def [symmetric]
    using nw2 by (simp add: shut_down_in_loop_def)
  from st2 show "state (output_drained c) = kDisconnecting"
    unfolding od by simp
  from nw2 show "\<not> is_writing_event (connChannel (output_drained c))"
    unfolding od by simp
  show "outputBuffer (output_drained c) = outputBuffer c"
    unfolding od c2_def c1_def by (simp add: queue_in_loop_fields disable_writing_fields)
  show "pendingFunctors (output_drained c)
         = pendingFunctors c @ (if writeCompleteCallback c then [WriteCompleteTask] else [])"
    unfolding od c2_def c1_def by (simp add: queue_in_loop_fields disable_writing_fields)
  from disable_writing_fields(5) [of c] obtain m where
    t1: "trace c1 = trace c @ [ChannelUpdate m]"
    unfolding c1_def by blast
  have "\<exists>Q. trace c2 = trace c1 @ Q \<and> SysShutdownWr \<notin> set Q \<and> UserWriteComplete \<notin> set Q \<and>
            written_bytes Q = [] \<and>
            (writeCompleteCallback c \<longrightarrow> Queued WriteCompleteTask \<in> set Q)"
  proof (cases "writeCompleteCallback c")
    case False
    then have "c2 = c1" unfolding c2_def c1_def by (simp add: disable_writing_fields)
    with False show ?thesis by simp
  next
    case True
    then have q: "c2 = queue_in_loop True WriteCompleteTask c1"
      unfolding c2_def c1_def by (simp add: disable_writing_fields)
    from queue_in_loop_trace [of True WriteCompleteTask c1] obtain T
      where T: "trace c2 = trace c1 @ Queued WriteCompleteTask # T" "set T \<subseteq> {Wakeup}"
      unfolding q by blast
    from T(2) have "written_bytes (Queued WriteCompleteTask # T) = []"
      by (intro written_bytes_none) auto
    moreover from T(2) have "SysShutdownWr \<notin> set (Queued WriteCompleteTask # T)"
      "UserWriteComplete \<notin> set (Queued WriteCompleteTask # T)"
      by auto
    ultimately show ?thesis using T(1) by (intro exI [of _ "Queued WriteCompleteTask # T"]) simp
  qed
  then obtain Q where Q: "trace c2 = trace c1 @ Q" "SysShutdownWr \<notin> set Q"
    "UserWriteComplete \<notin> set Q" "written_bytes Q = []"
    "writeCompleteCallback c \<longrightarrow> Queued WriteCompleteTask \<in> set Q"
    by blast
  show "\<exists>X. trace (output_drained c) = trace c @ X @ [SysShutdownWr] \<and>
             SysShutdownWr \<notin> set X \<and> UserWriteComplete \<notin> set X \<and> written_bytes X = [] \<and>
             (writeCompleteCallback c \<longrightarrow> Queued WriteCompleteTask \<in> set X)"
    unfolding od using t1 Q
    by (intro exI [of _ "ChannelUpdate m # Q"]) simp
qed

lemma half_close_start:
  assumes "state c = kConnected" and "is_writing_event (connChannel c)"
    and "0 < readable_bytes (outputBuffer c)" and "Buffer_inv (outputBuffer c)"
  shows "half_close_pending (shut_down il c) (shut_down il c)"
    and "pending_bytes (shut_down il c) = pending_bytes c"
    and "writeCompleteCallback (shut_down il c) = writeCompleteCallback c"
    and "\<exists>X. trace (shut_down il c) = trace c @ X \<and> set X \<subseteq> {Queued ShutDownInLoopTask, Wakeup}"
proof -
  have s: "shut_down il c =
      (if il then c\<lparr>state := kDisconnecting\<rparr>
       else queue_in_loop False ShutDownInLoopTask (c\<lparr>state := kDisconnecting\<rparr>))"
    using assms(1,2) by (simp add: shut_down_def run_in_loop_def shut_down_in_loop_def)
  have f: "state (shut_down il c) = kDisconnecting"
    "outputBuffer (shut_down il c) = outputBuffer c"
    "connChannel (shut_down il c) = connChannel c"
    unfolding s by (simp_all add: queue_in_loop_fields)
  show w: "writeCompleteCallback (shut_down il c) = writeCompleteCallback c"
    unfolding s by (simp add: queue_in_loop_fields)
  show "pending_bytes (shut_down il c) = pending_bytes c"
    by (simp add: pending_bytes_def f)
  have "trace (shut_down il c) = trace (shut_down il c) @ []" "SysShutdownWr \<notin> set []"
    "UserWriteComplete \<notin> set []"
    "written_bytes [] @ pending_bytes (shut_down il c) = pending_bytes (shut_down il c)"
    by simp_all
  then show "half_close_pending (shut_down il c) (shut_down il c)"
    unfolding half_close_pending_def using assms f by auto
  show "\<exists>X. trace (shut_down il c) = trace c @ X \<and> set X \<subseteq> {Queued ShutDownInLoopTask, Wakeup}"
    unfolding s by (simp add: queue_in_loop_def Let_def)
qed

lemma sys_write_not_others:
  "set T \<subseteq> range SysWrite \<Longrightarrow> SysShutdownWr \<notin> set T \<and> UserWriteComplete \<notin> set T"
  by auto

lemma half_close_step_pending:
  assumes "half_close_pending c c'"
  shows "half_close_pending c (handle_write c') \<or> half_close_done c (handle_write c')"
proof -
  from assms have st: "state c' = kDisconnecting" and inv: "Buffer_inv (outputBuffer c')"
    and wr: "is_writing_event (connChannel c')" and ne: "0 < readable_bytes (outputBuffer c')"
    and wc: "writeCompleteCallback c' = writeCompleteCallback c"
    and pf: "pendingFunctors c' = pendingFunctors c"
    unfolding half_close_pending_def by simp_all
  from assms obtain T where T: "trace c' = trace c @ T" "SysShutdownWr \<notin> set T"
    "UserWriteComplete \<notin> set T" "written_bytes T @ pending_bytes c' = pending_bytes c"
    unfolding half_close_pending_def by blast
  define data where "data = pending_bytes c'"
  from inv have ld: "length data = readable_bytes (outputBuffer c')"
    unfolding data_def by (rule pending_bytes_length)
  obtain r c1 where sw: "sock_write data c' = (r, c1)" by (cases "sock_write data c'")
  have f: "pendingFunctors c1 = pendingFunctors c'" "outputBuffer c1 = outputBuffer c'"
    "connChannel c1 = connChannel c'" "writeCompleteCallback c1 = writeCompleteCallback c'"
    "state c1 = state c'"
    using sock_write_fields [of data c'] sw by simp_all
  from sock_write_trace [OF sw] obtain T0 where
    T0: "trace c1 = trace c' @ T0" "set T0 \<subseteq> range SysWrite"
      "written_bytes T0 = (case r of Wrote n \<Rightarrow> take n data | WriteError e \<Rightarrow> [])"
    and le: "case r of Wrote n \<Rightarrow> n \<le> length data | WriteError e \<Rightarrow> True"
    by blast
  note no = sys_write_not_others [OF T0(2)]
  have hw: "handle_write c' =
      (case r of
         Wrote n \<Rightarrow>
           (if n > 0
            then (if readable_bytes (retrieve (outputBuffer c1) n) = 0
                  then output_drained (c1\<lparr>outputBuffer := retrieve (outputBuffer c1) n\<rparr>)
                  else c1\<lparr>outputBuffer := retrieve (outputBuffer c1) n\<rparr>)
            else log_error c1)
       | WriteError e \<Rightarrow> log_error c1)"
    using wr sw unfolding handle_write_def data_def pending_bytes_def
    by (simp add: Let_def split: write_result.splits)
  have idle: "half_close_pending c (log_error c1)" if "written_bytes T0 = []"
  proof -
    have "trace (log_error c1) = trace c @ (T @ T0 @ [LogError])"
      using T(1) T0(1) by (simp add: log_error_fields)
    moreover have "SysShutdownWr \<notin> set (T @ T0 @ [LogError])"
      "UserWriteComplete \<notin> set (T @ T0 @ [LogError])"
      using T(2,3) no by simp_all
    moreover have "written_bytes (T @ T0 @ [LogError]) @ pending_bytes (log_error c1)
                   = pending_bytes c"
      using that T(4) f(2) by (simp add: written_bytes_append pending_bytes_def log_error_fields)
    ultimately show ?thesis
      unfolding half_close_pending_def
      using st inv wr ne wc pf f by (auto simp: log_error_fields)
  qed
  show ?thesis
  proof (cases r)
    case (WriteError e)
    with hw T0(3) idle show ?thesis by simp
  next
    case (Wrote n)
    with le have n: "n \<le> length data" by simp
    from Wrote T0(3) have w0: "written_bytes T0 = take n data" by simp
    show ?thesis
    proof (cases "n = 0")
      case True
      with hw Wrote w0 idle show ?thesis by simp
    next
      case False
      then have pos: "0 < n" by simp
      define c2 where "c2 = c1\<lparr>outputBuffer := retrieve (outputBuffer c1) n\<rparr>"
      have inv2: "Buffer_inv (outputBuffer c2)"
        unfolding c2_def using inv f(2) by (simp add: retrieve_inv)
      show ?thesis
      proof (cases "n < readable_bytes (outputBuffer c')")
        case True
        then have r2: "readable_bytes (outputBuffer c2) = readable_bytes (outputBuffer c') - n"
          unfolding c2_def by (simp add: f(2) retrieve_content(1) [OF inv])
        from True have p2: "pending_bytes c2 = drop n data"
          unfolding c2_def data_def pending_bytes_def
          using retrieve_content(2) [OF inv, of n] by (simp add: f(2))
        from True r2 have ne2: "0 < readable_bytes (outputBuffer c2)" by simp
        with hw Wrote pos have res: "handle_write c' = c2"
          unfolding c2_def by simp
        have "trace c2 = trace c @ (T @ T0)"
          unfolding c2_def using T(1) T0(1) by simp
        moreover have "SysShutdownWr \<notin> set (T @ T0)" "UserWriteComplete \<notin> set (T @ T0)"
          using T(2,3) no by simp_all
        moreover have "written_bytes (T @ T0) @ pending_bytes c2 = pending_bytes c"
          using T(4) w0 p2 by (simp add: written_bytes_append data_def)
        ultimately have "half_close_pending c c2"
          unfolding half_close_pending_def
          using st inv2 wr ne2 wc pf f by (auto simp: c2_def)
        with res show ?thesis by simp
      next
        case False
        with n ld have nall: "n = length data" by simp
        from False have r2: "readable_bytes (outputBuffer c2) = 0"
          unfolding c2_def by (simp add: f(2) retrieve_drained)
        with hw Wrote pos have res: "handle_write c' = output_drained c2"
          unfolding c2_def by simp
        have st2: "state c2 = kDisconnecting"
          unfolding c2_def using st f by simp
        note d = output_drained_half_close [OF st2]
        from d(5) obtain X where X: "trace (output_drained c2) = trace c2 @ X @ [SysShutdownWr]"
          "SysShutdownWr \<notin> set X" "UserWriteComplete \<notin> set X" "written_bytes X = []"
          "writeCompleteCallback c2 \<longrightarrow> Queued WriteCompleteTask \<in> set X"
          by blast
        have wc2: "writeCompleteCallback c2 = writeCompleteCallback c"
          unfolding c2_def using wc f by simp
        have "trace (output_drained c2) = trace c @ (T @ T0 @ X) @ SysShutdownWr # []"
          using X(1) T(1) T0(1) unfolding c2_def by simp
        moreover have "SysShutdownWr \<notin> set (T @ T0 @ X)" "UserWriteComplete \<notin> set (T @ T0 @ X)"
          using T(2,3) no X(2,3) by simp_all
        moreover have "written_bytes (T @ T0 @ X) = pending_bytes c"
          using T(4) w0 X(4) nall by (simp add: written_bytes_append data_def)
        moreover have "writeCompleteCallback c \<longrightarrow> Queued WriteCompleteTask \<in> set (T @ T0 @ X)"
          using X(5) wc2 by simp
        moreover have "set [] \<subseteq> {LogError}" by simp
        ultimately have "\<exists>pre post. trace (output_drained c2) = trace c @ pre @ SysShutdownWr # post \<and>
          SysShutdownWr \<notin> set pre \<and> set post \<subseteq> {LogError} \<and>
          UserWriteComplete \<notin> set pre \<and> written_bytes pre = pending_bytes c \<and>
          (writeCompleteCallback c \<longrightarrow> Queued WriteCompleteTask \<in> set pre)"
          by blast
        moreover have "pendingFunctors (output_drained c2) =
            pendingFunctors c @ (if writeCompleteCallback c then [WriteCompleteTask] else [])"
          unfolding d(4) wc2 unfolding c2_def using pf f by simp
        moreover have "readable_bytes (outputBuffer (output_drained c2)) = 0"
          unfolding d(3) by (rule r2)
        ultimately have "half_close_done c (output_drained c2)"
          unfolding half_close_done_def using d(1,2) by simp
        with res show ?thesis by simp
      qed
    qed
  qed
qed

lemma half_close_step_done:
  assumes "half_close_done c c'"
  shows "half_close_done c (handle_write c')"
proof -
  from assms have nw: "\<not> is_writing_event (connChannel c')"
    unfolding half_close_done_def by simp
  then have hw: "handle_write c' = log_error c'"
    by (simp add: handle_write_def)
  from assms obtain pre post where t: "trace c' = trace c @ pre @ SysShutdownWr # post"
    "SysShutdownWr \<notin> set pre" "set post \<subseteq> {LogError}"
    "UserWriteComplete \<notin> set pre" "written_bytes pre = pending_bytes c"
    "writeCompleteCallback c \<longrightarrow> Queued WriteCompleteTask \<in> set pre"
    unfolding half_close_done_def by blast
  have "trace (log_error c') = trace c @ pre @ SysShutdownWr # (post @ [LogError])"
    using t(1) by (simp add: log_error_fields)
  moreover have "set (post @ [LogError]) \<subseteq> {LogError}"
    using t(3) by simp
  ultimately have "\<exists>pre post. trace (log_error c') = trace c @ pre @ SysShutdownWr # post \<and>
          SysShutdownWr \<notin> set pre \<and> set post \<subseteq> {LogError} \<and>
          UserWriteComplete \<notin> set pre \<and> written_bytes pre = pending_bytes c \<and>
          (writeCompleteCallback c \<longrightarrow> Queued WriteCompleteTask \<in> set pre)"
    using t(2,4,5,6) by blast
  with assms show ?thesis
    unfolding hw half_close_done_def by (simp add: log_error_fields)
qed

lemma half_close_steps:
  "half_close_pending c c' \<or> half_close_done c c' \<Longrightarrow>
   half_close_pending c (handle_writes k c') \<or> half_close_done c (handle_writes k c')"
proof (induction k arbitrary: c')
  case 0
  then show ?case by simp
next
  case (Suc k)
  from Suc.prems have "half_close_pending c (handle_write c') \<or> half_close_done c (handle_write c')"
    using half_close_step_pending half_close_step_done by blast
  then show ?case
    using Suc.IH by simp
qed

lemma buffer_remaining_trace_ext: "\<exists>T. trace (buffer_remaining d nwrote c) = trace c @ T"
proof -
  define c1 where "c1 = (if readable_bytes (outputBuffer c) + (length d - nwrote)
                              \<ge> highWaterMark c \<and>
                   readable_bytes (outputBuffer c) < highWaterMark c \<and> highWaterMarkCallback c
                then queue_in_loop True
                       (HighWaterMarkTask (readable_bytes (outputBuffer c) + (length d - nwrote))) c
                else c)"
  obtain a c2 where na: "next_allocation c1 = (a, c2)" by (cases "next_allocation c1")
  note n = next_allocation_fields [OF na]
  have "\<exists>T1. trace c1 = trace c @ T1"
    unfolding c1_def by (simp add: queue_in_loop_def Let_def)
  then obtain T1 where T1: "trace c2 = trace c @ T1" using n(6) by auto
  have "\<exists>T2. trace (buffer_remaining d nwrote c) = trace c2 @ T2"
    unfolding buffer_remaining_def Let_def c1_def [symmetric] na
    by (simp add: enable_writing_def channel_update_def split: outcome.splits)
  with T1 show ?thesis by auto
qed

lemma send_in_loop_trace_ext: "\<exists>T. trace (send_in_loop d c) = trace c @ T"
proof (cases "state c = kDisconnected")
  case True
  then show ?thesis by (simp add: send_in_loop_def log_error_fields)
next
  case False
  obtain nwrote fault c1 where t: "try_direct_write d c = (nwrote, fault, c1)"
    by (cases "try_direct_write d c")
  from try_direct_write_trace(1) [OF t] obtain T where T: "trace c1 = trace c @ T" by blast
  from buffer_remaining_trace_ext [of d nwrote c1] obtain T'
    where T': "trace (buffer_remaining d nwrote c1) = trace c1 @ T'" by blast
  from False t have "send_in_loop d c = c1 \<or> send_in_loop d c = buffer_remaining d nwrote c1"
    by (auto simp: send_in_loop_def)
  with T T' show ?thesis by auto
qed

lemma run_functor_trace_ext:
  "\<exists>T. trace (run_functor f c) = trace c @ T \<and>
       (f = WriteCompleteTask \<longrightarrow> UserWriteComplete \<in> set T)"
proof (cases f)
  case WriteCompleteTask
  then show ?thesis by simp
next
  case (HighWaterMarkTask n)
  then show ?thesis by simp
next
  case (SendInLoopTask a n)
  then show ?thesis using send_in_loop_trace_ext by simp
next
  case ShutDownInLoopTask
  then show ?thesis by (simp add: shut_down_in_loop_def)
qed

lemma call_functor_running:
  "fate (call_functor c f) = Running \<Longrightarrow> fate c = Running"
  by (auto simp: call_functor_def split: if_splits)

lemma call_functors_running:
  "fate (foldl call_functor c fs) = Running \<Longrightarrow> fate c = Running"
  by (induction fs arbitrary: c) (auto dest: call_functor_running)

text \<open>
  The function objects of a queue are called in order; when the loop of calls is not
  left early, each of them has run.
\<close>

lemma run_functors_trace:
  "\<exists>T. trace (foldl call_functor c fs) = trace c @ T \<and>
       (fate (foldl call_functor c fs) = Running \<and> WriteCompleteTask \<in> set fs
        \<longrightarrow> UserWriteComplete \<in> set T)"
proof (induction fs arbitrary: c)
  case Nil
  then show ?case by simp
next
  case (Cons f fs)
  from run_functor_trace_ext [of f c] obtain T0 where
    T0: "trace (run_functor f c) = trace c @ T0"
      "f = WriteCompleteTask \<longrightarrow> UserWriteComplete \<in> set T0"
    by blast
  have "\<exists>T1. trace (call_functor c f) = trace c @ T1 \<and>
        (fate c = Running \<and> f = WriteCompleteTask \<longrightarrow> UserWriteComplete \<in> set T1)"
    using T0 by (auto simp: call_functor_def)
  then obtain T1 where
    T1: "trace (call_functor c f) = trace c @ T1"
      "fate c = Running \<and> f = WriteCompleteTask \<longrightarrow> UserWriteComplete \<in> set T1"
    by blast
  from Cons.IH [of "call_functor c f"] obtain T2 where
    T2: "trace (foldl call_functor (call_functor c f) fs) = trace (call_functor c f) @ T2"
      "fate (foldl call_functor (call_functor c f) fs) = Running \<and> WriteCompleteTask \<in> set fs
       \<longrightarrow> UserWriteComplete \<in> set T2"
    by blast
  have r: "fate c = Running" if "fate (foldl call_functor (call_functor c f) fs) = Running"
    using that by (auto dest: call_functors_running call_functor_running)
  from T1 T2 r have "trace (foldl call_functor c (f # fs)) = trace c @ (T1 @ T2)"
    "fate (foldl call_functor c (f # fs)) = Running \<and> WriteCompleteTask \<in> set (f # fs)
     \<longrightarrow> UserWriteComplete \<in> set (T1 @ T2)"
    by auto
  then show ?case by blast
qed

lemma do_pending_functors_trace:
  "\<exists>T. trace (do_pending_functors c) = trace c @ T \<and>
       (fate (do_pending_functors c) = Running \<and> WriteCompleteTask \<in> set (pendingFunctors c)
        \<longrightarrow> UserWriteComplete \<in> set T)"
proof -
  define c1 where "c1 = c\<lparr>callingPendingFunctors := True, pendingFunctors := []\<rparr>"
  define c2 where "c2 = foldl call_functor c1 (pendingFunctors c)"
  from run_functors_trace [of c1 "pendingFunctors c"] obtain T where
    T: "trace c2 = trace c @ T"
    "fate c2 = Running \<and> WriteCompleteTask \<in> set (pendingFunctors c)
     \<longrightarrow> UserWriteComplete \<in> set T"
    unfolding c2_def c1_def by auto
  have d: "do_pending_functors c =
      (if fate c2 = Running then c2\<lparr>callingPendingFunctors := False\<rparr> else c2)"
    unfolding do_pending_functors_def Let_def c2_def c1_def by simp
  from T show ?thesis
    unfolding d by auto
qed

lemma half_close_pending_trace:
  assumes "half_close_pending c c'"
  shows "0 < readable_bytes (outputBuffer c')"
    and "SysShutdownWr \<notin> set (trace_since c c')"
  using assms unfolding half_close_pending_def trace_since_def by auto

lemma half_close_done_trace:
  assumes "half_close_done c c'"
  shows "readable_bytes (outputBuffer c') = 0"
    and "\<exists>pre post. trace_since c c' = pre @ SysShutdownWr # post \<and>
          SysShutdownWr \<notin> set pre \<and> set post \<subseteq> {LogError} \<and>
          UserWriteComplete \<notin> set pre \<and> written_bytes pre = pending_bytes c \<and>
          (writeCompleteCallback c \<longrightarrow> Queued WriteCompleteTask \<in> set pre)"
    and "writeCompleteCallback c \<longrightarrow> WriteCompleteTask \<in> set (pendingFunctors c')"
proof -
  from assms show "readable_bytes (outputBuffer c') = 0"
    unfolding half_close_done_def by simp
  from assms obtain pre post where t: "trace c' = trace c @ pre @ SysShutdownWr # post"
    "SysShutdownWr \<notin> set pre \<and> set post \<subseteq> {LogError} \<and>
          UserWriteComplete \<notin> set pre \<and> written_bytes pre = pending_bytes c \<and>
          (writeCompleteCallback c \<longrightarrow> Queued WriteCompleteTask \<in> set pre)"
    unfolding half_close_done_def by blast
  from t(1) have "trace_since c c' = pre @ SysShutdownWr # post"
    by (simp add: trace_since_def)
  with t(2) show "\<exists>pre post. trace_since c c' = pre @ SysShutdownWr # post \<and>
          SysShutdownWr \<notin> set pre \<and> set post \<subseteq> {LogError} \<and>
          UserWriteComplete \<notin> set pre \<and> written_bytes pre = pending_bytes c \<and>
          (writeCompleteCallback c \<longrightarrow> Queued WriteCompleteTask \<in> set pre)"
    by blast
  from assms show "writeCompleteCallback c \<longrightarrow> WriteCompleteTask \<in> set (pendingFunctors c')"
    unfolding half_close_done_def by simp
qed

lemma first_occurrence_unique:
  assumes "pre0 @ x # post0 = pre @ x # post" and "x \<notin> set pre0" and "x \<notin> set pre"
  shows "pre0 = pre \<and> post0 = post"
  using assms by (auto simp: append_eq_append_conv2 append_eq_Cons_conv Cons_eq_append_conv)

lemma half_close_after_shut_down:
  assumes "state c = kConnected" and "is_writing_event (connChannel c)"
    and "0 < readable_bytes (outputBuffer c)" and "Buffer_inv (outputBuffer c)"
  shows "SysShutdownWr \<notin> set (trace_since c (shut_down il c))
    \<and> (0 < readable_bytes (outputBuffer (handle_writes k (shut_down il c))) \<longrightarrow>
         SysShutdownWr \<notin> set (trace_since c (handle_writes k (shut_down il c))))
    \<and> (readable_bytes (outputBuffer (handle_writes k (shut_down il c))) = 0 \<longrightarrow>
         SysShutdownWr \<in> set (trace_since c (handle_writes k (shut_down il c))))
    \<and> (\<forall>pre post. trace_since c (handle_writes k (shut_down il c)) = pre @ SysShutdownWr # post \<longrightarrow>
         written_bytes pre = pending_bytes c \<and> written_bytes post = [] \<and>
         SysShutdownWr \<notin> set pre \<and> SysShutdownWr \<notin> set post \<and>
         UserWriteComplete \<notin> set pre \<and> UserWriteComplete \<notin> set post \<and>
         (writeCompleteCallback c \<longrightarrow> Queued WriteCompleteTask \<in> set pre))
    \<and> (writeCompleteCallback c \<and>
        SysShutdownWr \<in> set (trace_since c (handle_writes k (shut_down il c))) \<and>
        fate (do_pending_functors (handle_writes k (shut_down il c))) = Running \<longrightarrow>
         (\<exists>pre post.
            trace_since c (do_pending_functors (handle_writes k (shut_down il c)))
              = pre @ SysShutdownWr # post \<and>
            SysShutdownWr \<notin> set pre \<and> UserWriteComplete \<notin> set pre \<and>
            UserWriteComplete \<in> set post))"
proof -
  define s where "s = shut_down il c"
  define ck where "ck = handle_writes k s"
  note st = half_close_start [OF assms, of il, folded s_def]
  from st(4) obtain X where X: "trace s = trace c @ X"
    "set X \<subseteq> {Queued ShutDownInLoopTask, Wakeup}" by blast
  from X(2) have nX: "SysShutdownWr \<notin> set X" "UserWriteComplete \<notin> set X" by auto
  from X(2) have wX: "written_bytes X = []"
    by (intro written_bytes_none) auto
  from st(1) have pd: "half_close_pending s ck \<or> half_close_done s ck"
    unfolding ck_def by (intro half_close_steps) simp
  then have "\<exists>T. trace ck = trace s @ T"
    unfolding half_close_pending_def half_close_done_def by auto
  with X(1) have ts: "trace_since c ck = X @ trace_since s ck"
    by (auto simp: trace_since_def)
  have a: "SysShutdownWr \<notin> set (trace_since c s)"
    using X(1) nX(1) by (simp add: trace_since_def)
  have b: "0 < readable_bytes (outputBuffer ck) \<longrightarrow> SysShutdownWr \<notin> set (trace_since c ck)"
    unfolding ts using pd half_close_pending_trace(2) half_close_done_trace(1) nX(1) by fastforce
  have e: "readable_bytes (outputBuffer ck) = 0 \<longrightarrow> SysShutdownWr \<in> set (trace_since c ck)"
  proof
    assume "readable_bytes (outputBuffer ck) = 0"
    with pd half_close_pending_trace(1) have "half_close_done s ck" by fastforce
    from half_close_done_trace(2) [OF this] show "SysShutdownWr \<in> set (trace_since c ck)"
      unfolding ts by auto
  qed
  have c': "\<forall>pre post. trace_since c ck = pre @ SysShutdownWr # post \<longrightarrow>
         written_bytes pre = pending_bytes c \<and> written_bytes post = [] \<and>
         SysShutdownWr \<notin> set pre \<and> SysShutdownWr \<notin> set post \<and>
         UserWriteComplete \<notin> set pre \<and> UserWriteComplete \<notin> set post \<and>
         (writeCompleteCallback c \<longrightarrow> Queued WriteCompleteTask \<in> set pre)"
  proof (intro allI impI)
    fix pre post
    assume d: "trace_since c ck = pre @ SysShutdownWr # post"
    then have "SysShutdownWr \<in> set (trace_since c ck)" by simp
    with nX(1) have "SysShutdownWr \<in> set (trace_since s ck)"
      unfolding ts by simp
    with pd half_close_pending_trace(2) have "half_close_done s ck" by blast
    from half_close_done_trace(2) [OF this] obtain pre0 post0 where
      t: "trace_since s ck = pre0 @ SysShutdownWr # post0"
      "SysShutdownWr \<notin> set pre0" "set post0 \<subseteq> {LogError}"
      "UserWriteComplete \<notin> set pre0" "written_bytes pre0 = pending_bytes s"
      "writeCompleteCallback s \<longrightarrow> Queued WriteCompleteTask \<in> set pre0"
      by blast
    from t(3) have np: "SysShutdownWr \<notin> set post0" "UserWriteComplete \<notin> set post0" by auto
    from t(3) have wp: "written_bytes post0 = []"
      by (intro written_bytes_none) auto
    from d t(1) have eq: "(X @ pre0) @ SysShutdownWr # post0 = pre @ SysShutdownWr # post"
      unfolding ts by simp
    have "SysShutdownWr \<notin> set pre"
    proof
      assume "SysShutdownWr \<in> set pre"
      then obtain p1 p2 where p: "pre = p1 @ SysShutdownWr # p2" "SysShutdownWr \<notin> set p1"
        by (auto dest: split_list_first)
      with eq have "(X @ pre0) @ SysShutdownWr # post0
                    = p1 @ SysShutdownWr # (p2 @ SysShutdownWr # post)" by simp
      from first_occurrence_unique [OF this] t(2) nX(1) p(2)
      have "post0 = p2 @ SysShutdownWr # post" by simp
      with np(1) show False by simp
    qed
    with first_occurrence_unique [OF eq] t(2) nX(1)
    have pp: "pre = X @ pre0" "post = post0" by simp_all
    with t np wp nX wX st(2,3)
    show "written_bytes pre = pending_bytes c \<and> written_bytes post = [] \<and>
         SysShutdownWr \<notin> set pre \<and> SysShutdownWr \<notin> set post \<and>
         UserWriteComplete \<notin> set pre \<and> UserWriteComplete \<notin> set post \<and>
         (writeCompleteCallback c \<longrightarrow> Queued WriteCompleteTask \<in> set pre)"
      by (simp add: written_bytes_append)
  qed
  have d: "writeCompleteCallback c \<and> SysShutdownWr \<in> set (trace_since c ck) \<and>
           fate (do_pending_functors ck) = Running \<longrightarrow>
         (\<exists>pre post. trace_since c (do_pending_functors ck) = pre @ SysShutdownWr # post \<and>
            SysShutdownWr \<notin> set pre \<and> UserWriteComplete \<notin> set pre \<and>
            UserWriteComplete \<in> set post)"
  proof
    assume h: "writeCompleteCallback c \<and> SysShutdownWr \<in> set (trace_since c ck) \<and>
               fate (do_pending_functors ck) = Running"
    with nX(1) have "SysShutdownWr \<in> set (trace_since s ck)"
      unfolding ts by simp
    with pd half_close_pending_trace(2) have dn: "half_close_done s ck" by blast
    from half_close_done_trace(2) [OF dn] obtain pre0 post0 where
      t: "trace_since s ck = pre0 @ SysShutdownWr # post0"
      "SysShutdownWr \<notin> set pre0" "UserWriteComplete \<notin> set pre0"
      by blast
    from dn X(1) have tp: "\<exists>T. trace ck = trace c @ T"
      unfolding half_close_done_def by auto
    from half_close_done_trace(3) [OF dn] h st(3)
    have "WriteCompleteTask \<in> set (pendingFunctors ck)" by simp
    with do_pending_functors_trace [of ck] h obtain Y where
      Y: "trace (do_pending_functors ck) = trace ck @ Y" "UserWriteComplete \<in> set Y"
      by blast
    from tp Y(1) have "trace_since c (do_pending_functors ck) = trace_since c ck @ Y"
      by (auto simp: trace_since_def)
    with t(1) have "trace_since c (do_pending_functors ck)
                    = (X @ pre0) @ SysShutdownWr # (post0 @ Y)"
      unfolding ts by simp
    moreover from Y(2) have "UserWriteComplete \<in> set (post0 @ Y)" by simp
    moreover have "SysShutdownWr \<notin> set (X @ pre0)" "UserWriteComplete \<notin> set (X @ pre0)"
      using t(2,3) nX by simp_all
    ultimately show "\<exists>pre post. trace_since c (do_pending_functors ck) = pre @ SysShutdownWr # post \<and>
            SysShutdownWr \<notin> set pre \<and> UserWriteComplete \<notin> set pre \<and>
            UserWriteComplete \<in> set post"
      by blast
  qed
  from a b e c' d show ?thesis
    unfolding ck_def s_def by blast
qed

subsection \<open>The properties on the example states\<close>

lemma init_buffer: "Buffer_inv (Buffer_init kInitialSize)"
  by (intro Buffer_init_inv) (simp add: kCheapPrepend_def kInitialSize_def vector_max_size_def)

lemma fresh_append:
  assumes "length d \<le> 2 ^ 62"
  shows "append_buf None (Buffer_init kInitialSize) d
         = Returned (appended (Buffer_init kInitialSize) d)"
    and "Buffer_inv (appended (Buffer_init kInitialSize) d)"
    and "readable_bytes (appended (Buffer_init kInitialSize) d) = length d"
    and "length d = k \<Longrightarrow> take k (peek (appended (Buffer_init kInitialSize) d)) = d"
proof -
  from assms have fits: "writerIndex (Buffer_init kInitialSize) + length d \<le> vector_max_size"
    by (simp add: writer_init kCheapPrepend_def vector_max_size_def)
  show "append_buf None (Buffer_init kInitialSize) d
         = Returned (appended (Buffer_init kInitialSize) d)"
    by (rule append_None_returns [OF init_buffer fits])
  note a = appended_facts [OF init_buffer fits]
  from a(1) show "Buffer_inv (appended (Buffer_init kInitialSize) d)" .
  from a(2) show r: "readable_bytes (appended (Buffer_init kInitialSize) d) = length d"
    by (simp add: readable_init)
  from a(3) show "length d = k \<Longrightarrow> take k (peek (appended (Buffer_init kInitialSize) d)) = d"
    unfolding r by (simp add: readable_init)
qed

lemmas conn_eval =
  ex_established_def connect_Established_def TcpConnection_new_def
  send_def send_in_loop_def try_direct_write_def buffer_remaining_def sock_write_def
  queue_in_loop_def enable_reading_def enable_writing_def disable_writing_def channel_update_def
  log_error_def kernel_will_answer_def logger_will_leave_def errno_after_log_def
  allocator_will_answer_def next_allocation_def call_functor_def
  caller_stores_def set_high_water_mark_callback_def
  Channel_new_def
  is_writing_event_def KReadEvent_def KWriteEvent_def EPOLLIN_def EPOLLPRI_def EPOLLOUT_def
  EWOULDBLOCK_def EPIPE_def ECONNRESET_def direct_write_fault_def
  shut_down_def shut_down_in_loop_def run_in_loop_def handle_write_def output_drained_def
  do_pending_functors_def trace_since_def queued_since_def pending_bytes_def Let_def
  readable_init init_buffer fresh_append retrieve_drained

lemma ex_draining_eq:
  "ex_draining =
     \<lparr>state = kConnected,
      connChannel = \<lparr>fd = 5, events = 7, revents = 0, index = - 1, tied = True\<rparr>,
      outputBuffer = appended (Buffer_init kInitialSize) [105],
      highWaterMark = 67108864,
      connectionCallback = True,
      writeCompleteCallback = True,
      highWaterMarkCallback = False,
      pendingFunctors = [],
      callingPendingFunctors = False,
      memory = (\<lambda>_. [])(0 := [104, 105]),
      write_answers = [Wrote 1],
      errno = 0,
      log_answers = [],
      alloc_answers = [],
      fate = Running,
      trace = [ChannelUpdate 3, UserConnection, SysWrite [104], ChannelUpdate 7]\<rparr>"
  by (simp add: ex_draining_def conn_eval)

text \<open>
  C2 as stated fails in its last part. On the example connection with one buffered
  byte, \<open>shut_down\<close> and then one \<open>handle_write\<close> write the byte, queue the
  write-complete callback and issue the shutdown; the callback runs only in
  \<open>do_pending_functors\<close>, after the shutdown.
\<close>

theorem write_complete_runs_after_shutdown_counterexample:
  "state ex_draining = kConnected
   \<and> pending_bytes ex_draining = [105]
   \<and> trace_since ex_draining (handle_write (shut_down True ex_draining))
     = [SysWrite [105], ChannelUpdate 3, Queued WriteCompleteTask, SysShutdownWr]
   \<and> trace_since ex_draining (do_pending_functors (handle_write (shut_down True ex_draining)))
     = [SysWrite [105], ChannelUpdate 3, Queued WriteCompleteTask, SysShutdownWr,
        UserWriteComplete]"
  unfolding ex_draining_eq by (simp add: conn_eval)

theorem send_dropped_unless_connected_witness:
  "state (TcpConnection_new 5 True True) \<noteq> kConnected
   \<and> send True 0 (TcpConnection_new 5 True True) = TcpConnection_new 5 True True
   \<and> state ex_draining = kConnected
   \<and> state (shut_down True ex_draining) = kDisconnecting
   \<and> pending_bytes (shut_down True ex_draining) = [105]
   \<and> SysShutdownWr \<notin> set (trace (shut_down True ex_draining))
   \<and> send False 0 (shut_down True ex_draining) = shut_down True ex_draining"
proof -
  have n: "state (TcpConnection_new 5 True True) \<noteq> kConnected"
    by (simp add: TcpConnection_new_def)
  have d: "state ex_draining = kConnected"
    "pending_bytes (shut_down True ex_draining) = [105]"
    "SysShutdownWr \<notin> set (trace (shut_down True ex_draining))"
    unfolding ex_draining_eq by (simp_all add: conn_eval)
  from n d send_dropped_unless_connected [of "TcpConnection_new 5 True True" True 0 True]
    send_dropped_unless_connected [of ex_draining False 0 True]
  show ?thesis by blast
qed

text \<open>
  C1 fails on the code. The function object that a cross-thread \<open>send\<close> queues holds
  the pointer \<open>buf.c_str()\<close> and the size, not a copy of the bytes: no byte is written
  by the call itself, and what is written when the loop runs the function object is
  what the caller's memory holds then ("Jello"), not what the string held at the time
  of the call ("hello").
\<close>

theorem cross_thread_send_reads_late:
  "state ex_hello = kConnected
   \<and> memory ex_hello 0 = [104, 101, 108, 108, 111]
   \<and> pendingFunctors ex_posted = [SendInLoopTask 0 5]
   \<and> written_bytes (trace_since ex_hello ex_posted) = []
   \<and> written_bytes (trace_since ex_hello ex_sent) = [74, 101, 108, 108, 111]"
  by (simp add: ex_sent_def ex_overwritten_def ex_posted_def ex_hello_def conn_eval)

theorem dispatch_in_spec_order_witness:
  "handle_event_with_guard ((Channel_new 5)\<lparr>revents := 0x15\<rparr>) recording_callbacks 7 []
     = [ReadCb 7, WriteCb]
   \<and> handle_event_with_guard ((Channel_new 5)\<lparr>revents := 0x18\<rparr>) recording_callbacks 7 []
     = [CloseCb, ErrorCb]"
  using dispatch_in_spec_order
      [of "(Channel_new 5)\<lparr>revents := 0x15\<rparr>" recording_callbacks 7 "[]", THEN conjunct2]
    dispatch_in_spec_order
      [of "(Channel_new 5)\<lparr>revents := 0x18\<rparr>" recording_callbacks 7 "[]", THEN conjunct2]
  by (simp add: spec_dispatch_order_def Channel_new_def)

theorem has_channel_compares_pointer_witness:
  "fd (heap first_registered 0) \<in> dom (channels first_registered)
   \<and> the (channels first_registered (fd (heap first_registered 0))) = 0
   \<and> has_channel 0 first_registered"
proof -
  have "fd (heap first_registered 0) \<in> dom (channels first_registered)"
    "the (channels first_registered (fd (heap first_registered 0))) = 0"
    by (simp_all add: first_registered_def two_channels_def update_channel_def
      update_def store_index_def set_index_def Channel_new_def kNew_def kAdded_def
      kDeleted_def Let_def)
  with has_channel_compares_pointer [of 0 first_registered]
  show ?thesis by simp
qed

subsection \<open>TcpConnection: the high-water mark\<close>

text \<open>
  C3 (as amended). Let \<open>old\<close> be the readable bytes of the output buffer when
  \<open>send_in_loop\<close> is called and \<open>remaining\<close> the length of the data less the bytes the
  call writes to the socket. The call queues the high-water-mark callback, once and
  with the argument \<open>old + remaining\<close>, exactly when a callback is set, the call buffers
  the remainder (the connection is not Disconnected and \<open>faultError\<close> is not set: it is
  not the case that the direct write failed and \<open>errno\<close> held EPIPE or ECONNRESET after
  the failure was logged) and old < HWM \<le> old + remaining. It queues none when
  old \<ge> HWM, and none when old + remaining < HWM. The pending length after the call
  is \<open>old + remaining\<close> when the call buffers and \<open>append\<close> returns, else \<open>old\<close>.
\<close>

theorem high_water_mark_edge:
  assumes "Buffer_inv (outputBuffer c)" and "fate c = Running"
  shows
   "filter is_high_water_mark_task (queued_since c (send_in_loop data c))
      = (if highWaterMarkCallback c \<and> state c \<noteq> kDisconnected \<and> \<not> direct_write_fault c \<and>
            readable_bytes (outputBuffer c) < highWaterMark c \<and>
            highWaterMark c \<le> readable_bytes (outputBuffer c)
              + (length data - length (written_bytes (trace_since c (send_in_loop data c))))
         then [HighWaterMarkTask (readable_bytes (outputBuffer c)
              + (length data - length (written_bytes (trace_since c (send_in_loop data c)))))]
         else [])
    \<and> readable_bytes (outputBuffer (send_in_loop data c))
      = (if state c \<noteq> kDisconnected \<and> \<not> direct_write_fault c \<and>
            fate (send_in_loop data c) = Running
         then readable_bytes (outputBuffer c)
              + (length data - length (written_bytes (trace_since c (send_in_loop data c))))
         else readable_bytes (outputBuffer c))"
  using send_in_loop_pending_length(1) [OF assms(1), of data]
    send_in_loop_pending_length(2) [OF assms, of data]
  by simp

theorem high_water_mark_edge_witness:
  "Buffer_inv (outputBuffer ex_blocked)
   \<and> fate ex_blocked = Running
   \<and> filter is_high_water_mark_task
        (queued_since ex_blocked (send_in_loop (replicate 67108864 0) ex_blocked))
      = [HighWaterMarkTask 67108864]
   \<and> readable_bytes (outputBuffer (send_in_loop (replicate 67108864 0) ex_blocked)) = 67108864
   \<and> filter is_high_water_mark_task
        (queued_since ex_blocked (send_in_loop (replicate 67108863 0) ex_blocked))
      = []
   \<and> Buffer_inv (outputBuffer ex_log_fails)
   \<and> fate ex_log_fails = Running
   \<and> write_answers ex_log_fails = [WriteError EPIPE]
   \<and> \<not> direct_write_fault ex_log_fails
   \<and> filter is_high_water_mark_task
        (queued_since ex_log_fails (send_in_loop (replicate 67108864 0) ex_log_fails))
      = [HighWaterMarkTask 67108864]
   \<and> readable_bytes (outputBuffer (send_in_loop (replicate 67108864 0) ex_log_fails))
      = 67108864"
proof -
  have b: "Buffer_inv (outputBuffer ex_blocked)" "fate ex_blocked = Running"
    "highWaterMarkCallback ex_blocked"
    "state ex_blocked \<noteq> kDisconnected" "\<not> direct_write_fault ex_blocked"
    "readable_bytes (outputBuffer ex_blocked) = 0" "highWaterMark ex_blocked = 67108864"
    by (simp_all add: ex_blocked_def conn_eval)
  have w: "written_bytes (trace_since ex_blocked (send_in_loop (replicate 67108864 0) ex_blocked)) = []"
    "written_bytes (trace_since ex_blocked (send_in_loop (replicate 67108863 0) ex_blocked)) = []"
    "fate (send_in_loop (replicate 67108864 0) ex_blocked) = Running"
    by (simp_all add: ex_blocked_def conn_eval)
  have l: "Buffer_inv (outputBuffer ex_log_fails)" "fate ex_log_fails = Running"
    "highWaterMarkCallback ex_log_fails"
    "state ex_log_fails \<noteq> kDisconnected" "\<not> direct_write_fault ex_log_fails"
    "readable_bytes (outputBuffer ex_log_fails) = 0" "highWaterMark ex_log_fails = 67108864"
    "write_answers ex_log_fails = [WriteError EPIPE]"
    by (simp_all add: ex_log_fails_def ex_broken_def conn_eval)
  have v: "written_bytes
             (trace_since ex_log_fails (send_in_loop (replicate 67108864 0) ex_log_fails)) = []"
    "fate (send_in_loop (replicate 67108864 0) ex_log_fails) = Running"
    by (simp_all add: ex_log_fails_def ex_broken_def conn_eval)
  from high_water_mark_edge [OF b(1,2), of "replicate 67108864 0"]
    high_water_mark_edge [OF b(1,2), of "replicate 67108863 0"]
    high_water_mark_edge [OF l(1,2), of "replicate 67108864 0"] b w l v
  show ?thesis by simp
qed

text \<open>
  C3 as stated fails where a guard of the code holds the callback back: with a callback
  set and the direct write answered by EPIPE (the logger leaving \<open>errno\<close> as it was),
  and with no callback set, a send of 64 MiB on an empty buffer has
  old < HWM \<le> old + remaining and queues nothing.
\<close>

theorem high_water_mark_guards_counterexample:
  "highWaterMarkCallback ex_broken
   \<and> readable_bytes (outputBuffer ex_broken) < highWaterMark ex_broken
   \<and> highWaterMark ex_broken \<le> readable_bytes (outputBuffer ex_broken)
        + (length (replicate 67108864 (0::byte))
           - length (written_bytes
               (trace_since ex_broken (send_in_loop (replicate 67108864 0) ex_broken))))
   \<and> queued_since ex_broken (send_in_loop (replicate 67108864 0) ex_broken) = []
   \<and> \<not> highWaterMarkCallback ex_unset
   \<and> readable_bytes (outputBuffer ex_unset) < highWaterMark ex_unset
   \<and> highWaterMark ex_unset \<le> readable_bytes (outputBuffer ex_unset)
        + (length (replicate 67108864 (0::byte))
           - length (written_bytes
               (trace_since ex_unset (send_in_loop (replicate 67108864 0) ex_unset))))
   \<and> readable_bytes (outputBuffer (send_in_loop (replicate 67108864 0) ex_unset)) = 67108864
   \<and> queued_since ex_unset (send_in_loop (replicate 67108864 0) ex_unset) = []"
  by (simp add: ex_broken_def ex_unset_def conn_eval)

subsection \<open>TcpConnection: write interest while bytes are buffered\<close>

lemma output_watched_fields:
  "outputBuffer c' = outputBuffer c \<Longrightarrow> connChannel c' = connChannel c \<Longrightarrow>
   output_watched c' = output_watched c"
  by (simp add: output_watched_def)

lemma output_watched_queue_in_loop [simp]:
  "output_watched (queue_in_loop il f c) = output_watched c"
  by (rule output_watched_fields) (simp_all add: queue_in_loop_fields)

lemma output_watched_log_error [simp]: "output_watched (log_error c) = output_watched c"
  by (rule output_watched_fields) (simp_all add: log_error_fields)

lemma output_watched_shut_down_in_loop [simp]:
  "output_watched (shut_down_in_loop c) = output_watched c"
  by (rule output_watched_fields) (simp_all add: shut_down_in_loop_def)

lemma output_watched_established:
  "output_watched (connect_Established (TcpConnection_new sockfd conn_cb write_complete_cb))"
  by (simp add: output_watched_def connect_Established_def TcpConnection_new_def Let_def
      enable_reading_def channel_update_def init_buffer readable_init)

lemma output_watched_buffer_remaining:
  assumes "output_watched c"
  shows "output_watched (buffer_remaining data nwrote c)"
proof -
  from assms have "Buffer_inv (outputBuffer c)" by (simp add: output_watched_def)
  from buffer_remaining_cases(3) [OF this, of data nwrote] assms show ?thesis
    by (auto simp: output_watched_def)
qed

lemma output_watched_send_in_loop:
  assumes "output_watched c"
  shows "output_watched (send_in_loop data c)"
proof (cases "state c = kDisconnected")
  case True
  with assms show ?thesis by (simp add: send_in_loop_def)
next
  case False
  obtain nwrote fault c1 where t: "try_direct_write data c = (nwrote, fault, c1)"
    by (cases "try_direct_write data c")
  note f = try_direct_write_fields [OF t]
  from assms f(1,2) have w1: "output_watched c1"
    by (simp add: output_watched_def)
  then have "output_watched (buffer_remaining data nwrote c1)"
    by (rule output_watched_buffer_remaining)
  moreover from False t
  have "send_in_loop data c = c1 \<or> send_in_loop data c = buffer_remaining data nwrote c1"
    by (auto simp: send_in_loop_def)
  ultimately show ?thesis using w1 by auto
qed

lemma output_watched_shut_down:
  assumes "output_watched c"
  shows "output_watched (shut_down il c)"
proof -
  from assms have "output_watched (c\<lparr>state := kDisconnecting\<rparr>)"
    by (simp add: output_watched_def)
  with assms show ?thesis
    by (cases il) (simp_all add: shut_down_def run_in_loop_def)
qed

lemma output_watched_send:
  "output_watched c \<Longrightarrow> output_watched (send il buf c)"
  by (simp add: send_def run_in_loop_def output_watched_send_in_loop)

lemma output_drained_buffer: "outputBuffer (output_drained c) = outputBuffer c"
  by (simp add: output_drained_def Let_def shut_down_in_loop_def queue_in_loop_fields
      disable_writing_fields)

lemma output_watched_handle_write:
  assumes "output_watched c"
  shows "output_watched (handle_write c)"
proof (cases "is_writing_event (connChannel c)")
  case False
  with assms show ?thesis by (simp add: handle_write_def)
next
  case True
  define data where "data = take (readable_bytes (outputBuffer c)) (peek (outputBuffer c))"
  obtain r c1 where sw: "sock_write data c = (r, c1)" by (cases "sock_write data c")
  have f: "outputBuffer c1 = outputBuffer c" "connChannel c1 = connChannel c"
    using sock_write_fields [of data c] sw by simp_all
  from assms f have w1: "output_watched c1" by (simp add: output_watched_def)
  show ?thesis
  proof (cases r)
    case (WriteError e)
    with True sw w1 show ?thesis
      unfolding handle_write_def data_def [symmetric] by simp
  next
    case (Wrote n)
    define c2 where "c2 = c1\<lparr>outputBuffer := retrieve (outputBuffer c1) n\<rparr>"
    from assms f have inv2: "Buffer_inv (outputBuffer c2)"
      unfolding c2_def by (simp add: output_watched_def retrieve_inv)
    from True f have wr2: "is_writing_event (connChannel c2)"
      unfolding c2_def by simp
    from inv2 wr2 have w2: "output_watched c2" by (simp add: output_watched_def)
    have w3: "output_watched (output_drained c2)" if "readable_bytes (outputBuffer c2) = 0"
      using that inv2 by (simp add: output_watched_def output_drained_buffer)
    from True sw Wrote have "handle_write c =
        (if n > 0 then (if readable_bytes (outputBuffer c2) = 0 then output_drained c2 else c2)
         else log_error c1)"
      unfolding handle_write_def data_def [symmetric] c2_def by (simp add: Let_def)
    with w1 w2 w3 show ?thesis by simp
  qed
qed

lemma output_watched_run_functor:
  "output_watched c \<Longrightarrow> output_watched (run_functor f c)"
  by (cases f) (simp_all add: output_watched_send_in_loop, simp_all add: output_watched_def)

lemma output_watched_call_functors:
  "output_watched c \<Longrightarrow> output_watched (foldl call_functor c fs)"
  by (induction fs arbitrary: c) (simp_all add: call_functor_def output_watched_run_functor)

lemma output_watched_do_pending_functors:
  assumes "output_watched c"
  shows "output_watched (do_pending_functors c)"
proof -
  from assms have "output_watched (c\<lparr>callingPendingFunctors := True, pendingFunctors := []\<rparr>)"
    by (simp add: output_watched_def)
  then have "output_watched (foldl call_functor
               (c\<lparr>callingPendingFunctors := True, pendingFunctors := []\<rparr>) (pendingFunctors c))"
    by (rule output_watched_call_functors)
  then show ?thesis
    by (simp add: do_pending_functors_def Let_def output_watched_def)
qed

lemma output_watched_method: "output_watched c \<Longrightarrow> output_watched (call_method c x)"
  by (cases x)
     (simp_all add: output_watched_send output_watched_shut_down output_watched_handle_write
        output_watched_do_pending_functors,
      simp_all add: output_watched_def set_high_water_mark_callback_def caller_stores_def
        kernel_will_answer_def logger_will_leave_def allocator_will_answer_def)

lemma output_watched_step: "output_watched c \<Longrightarrow> output_watched (conn_step c x)"
  by (simp add: conn_step_def output_watched_method)

lemma output_watched_run: "output_watched (conn_run sockfd conn_cb write_complete_cb ops)"
proof -
  have "output_watched c \<Longrightarrow> output_watched (foldl conn_step c ops)" for c
    by (induction ops arbitrary: c) (simp_all add: output_watched_step)
  then show ?thesis
    unfolding conn_run_def using output_watched_established by blast
qed

subsection \<open>TcpConnection: the half-close ordering\<close>

text \<open>
  C2 (as amended). Take a connection in any state reached from
  \<open>connect_Established\<close> by the methods of the model, Connected and with a non-empty
  output buffer; let \<open>shut_down\<close> be called, on the loop's thread or on another, and
  \<open>handle_write\<close> run any number of times after it. Then \<open>shut_down\<close> itself issues no
  shutdown; no shutdown is issued as long as bytes remain in the buffer, and one is
  issued once the buffer is empty; before that shutdown exactly the bytes that were
  buffered have been written, none are written after it, and the write-complete
  callback, when set, has been queued but has not run. It runs after the shutdown,
  when the loop runs its pending function objects (and none of those before it ends
  the loop).
\<close>

theorem half_close_ordering:
  assumes "c = conn_run sockfd conn_cb write_complete_cb ops"
    and "state c = kConnected" and "0 < readable_bytes (outputBuffer c)"
  shows "SysShutdownWr \<notin> set (trace_since c (shut_down il c))
    \<and> (0 < readable_bytes (outputBuffer (handle_writes k (shut_down il c))) \<longrightarrow>
         SysShutdownWr \<notin> set (trace_since c (handle_writes k (shut_down il c))))
    \<and> (readable_bytes (outputBuffer (handle_writes k (shut_down il c))) = 0 \<longrightarrow>
         SysShutdownWr \<in> set (trace_since c (handle_writes k (shut_down il c))))
    \<and> (\<forall>pre post. trace_since c (handle_writes k (shut_down il c)) = pre @ SysShutdownWr # post \<longrightarrow>
         written_bytes pre = pending_bytes c \<and> written_bytes post = [] \<and>
         SysShutdownWr \<notin> set pre \<and> SysShutdownWr \<notin> set post \<and>
         UserWriteComplete \<notin> set pre \<and> UserWriteComplete \<notin> set post \<and>
         (writeCompleteCallback c \<longrightarrow> Queued WriteCompleteTask \<in> set pre))
    \<and> (writeCompleteCallback c \<and>
        SysShutdownWr \<in> set (trace_since c (handle_writes k (shut_down il c))) \<and>
        fate (do_pending_functors (handle_writes k (shut_down il c))) = Running \<longrightarrow>
         (\<exists>pre post.
            trace_since c (do_pending_functors (handle_writes k (shut_down il c)))
              = pre @ SysShutdownWr # post \<and>
            SysShutdownWr \<notin> set pre \<and> UserWriteComplete \<notin> set pre \<and>
            UserWriteComplete \<in> set post))"
proof -
  have "output_watched c"
    unfolding assms(1) by (rule output_watched_run)
  with assms(3) have "is_writing_event (connChannel c)" and "Buffer_inv (outputBuffer c)"
    by (simp_all add: output_watched_def)
  with assms(2,3) show ?thesis
    by (intro half_close_after_shut_down)
qed

lemma ex_draining_run:
  "ex_draining =
     conn_run 5 True True
       [CallerStores 0 [104, 105], KernelWillAnswer [Wrote 1, Wrote 1], Send True 0]"
proof -
  have "fate ex_established = Running"
    by (simp add: conn_eval)
  then show ?thesis
    by (simp add: conn_run_def conn_step_def ex_draining_def ex_established_def
        caller_stores_def kernel_will_answer_def)
qed

theorem half_close_ordering_witness:
  "state ex_draining = kConnected
   \<and> 0 < readable_bytes (outputBuffer ex_draining)
   \<and> SysShutdownWr \<notin> set (trace_since ex_draining (shut_down False ex_draining))
   \<and> 0 < readable_bytes (outputBuffer (handle_writes 0 (shut_down True ex_draining)))
   \<and> SysShutdownWr \<notin> set (trace_since ex_draining (handle_writes 0 (shut_down True ex_draining)))
   \<and> readable_bytes (outputBuffer (handle_writes 1 (shut_down False ex_draining))) = 0
   \<and> SysShutdownWr \<in> set (trace_since ex_draining (handle_writes 1 (shut_down False ex_draining)))
   \<and> trace_since ex_draining (handle_writes 1 (shut_down False ex_draining))
       = [Queued ShutDownInLoopTask, Wakeup, SysWrite [105], ChannelUpdate 3,
          Queued WriteCompleteTask] @ SysShutdownWr # []
   \<and> written_bytes [Queued ShutDownInLoopTask, Wakeup, SysWrite [105], ChannelUpdate 3,
          Queued WriteCompleteTask]
       = pending_bytes ex_draining
   \<and> writeCompleteCallback ex_draining
   \<and> fate (do_pending_functors (handle_writes 1 (shut_down False ex_draining))) = Running
   \<and> (\<exists>pre post.
        trace_since ex_draining
          (do_pending_functors (handle_writes 1 (shut_down False ex_draining)))
          = pre @ SysShutdownWr # post \<and>
        SysShutdownWr \<notin> set pre \<and> UserWriteComplete \<notin> set pre \<and> UserWriteComplete \<in> set post)"
proof -
  have h: "state ex_draining = kConnected" "0 < readable_bytes (outputBuffer ex_draining)"
    unfolding ex_draining_eq by (simp_all add: conn_eval)
  have k0: "0 < readable_bytes (outputBuffer (handle_writes 0 (shut_down True ex_draining)))"
    unfolding ex_draining_eq by (simp add: conn_eval)
  have k1: "readable_bytes (outputBuffer (handle_writes 1 (shut_down False ex_draining))) = 0"
    "trace_since ex_draining (handle_writes 1 (shut_down False ex_draining))
       = [Queued ShutDownInLoopTask, Wakeup, SysWrite [105], ChannelUpdate 3,
          Queued WriteCompleteTask] @ SysShutdownWr # []"
    "writeCompleteCallback ex_draining"
    "fate (do_pending_functors (handle_writes 1 (shut_down False ex_draining))) = Running"
    unfolding ex_draining_eq by (simp_all add: conn_eval)
  from half_close_ordering [OF ex_draining_run h, of True 0]
    half_close_ordering [OF ex_draining_run h, of False 1] h k0 k1
  show ?thesis by blast
qed

end
